theory Spec2Isabelle
  imports Complex_Main "HOL-Library.Sublist"
begin

section \<open>Strings of the host language\<close>

text \<open>
  The plugin is TypeScript. A document is a JavaScript string; it is modelled as a
  \<^typ>\<open>string\<close>, one \<^typ>\<open>char\<close> per code unit (code units below 256, which
  contains every character the plugin itself writes or tests for). The string
  operations of the host language that the source calls are written out below.
\<close>

text \<open>\<^verbatim>\<open>export const BOOKMARK_MARKER = '<!-- bookmark-marker -->';\<close> (constants.ts)\<close>

definition BOOKMARK_MARKER :: string where
  "BOOKMARK_MARKER = ''<!-- bookmark-marker -->''"

definition LF :: string where
  "LF = [CHR 0x0A]"

definition CRLF :: string where
  "CRLF = [CHR 0x0D, CHR 0x0A]"

text \<open>\<^verbatim>\<open>s.includes(sub)\<close>: does \<open>sub\<close> occur in \<open>s\<close> as a contiguous piece.\<close>

fun str_includes :: "string \<Rightarrow> string \<Rightarrow> bool" where
  "str_includes [] sub = (sub = [])"
| "str_includes (c # cs) sub = (prefix sub (c # cs) \<or> str_includes cs sub)"

text \<open>
  \<^verbatim>\<open>s.indexOf(sub)\<close>: the first position where \<open>sub\<close> occurs, \<open>-1\<close> when it
  does not. \<open>indexOfFrom s sub i\<close> is the search in the rest \<open>s\<close> of the string that
  starts at position \<open>i\<close>.
\<close>

fun indexOfFrom :: "string \<Rightarrow> string \<Rightarrow> nat \<Rightarrow> int" where
  "indexOfFrom [] sub i = (if sub = [] then int i else -1)"
| "indexOfFrom (c # cs) sub i =
     (if prefix sub (c # cs) then int i else indexOfFrom cs sub (i + 1))"

definition indexOf :: "string \<Rightarrow> string \<Rightarrow> int" where
  "indexOf s sub = indexOfFrom s sub 0"

text \<open>\<^verbatim>\<open>s.slice(a, b)\<close> and \<open>s.slice(a)\<close> for indices within \<open>0 .. s.length\<close>.\<close>

definition slice :: "string \<Rightarrow> nat \<Rightarrow> nat \<Rightarrow> string" where
  "slice s a b = take (b - a) (drop a s)"

definition sliceFrom :: "string \<Rightarrow> nat \<Rightarrow> string" where
  "sliceFrom s a = drop a s"

text \<open>
  \<^verbatim>\<open>content.split(/\r?\n/)\<close>: the pieces between line breaks, a line break being a
  line feed together with the carriage return directly before it, if there is one.
  The result always has at least one piece; a character that is not part of a line
  break goes in front of the first piece of the rest.
\<close>

fun splitLines :: "string \<Rightarrow> string list" where
  "splitLines [] = [[]]"
| "splitLines (c # cs) =
     (if c = CHR 0x0D \<and> cs \<noteq> [] \<and> hd cs = CHR 0x0A then [] # splitLines (tl cs)
      else if c = CHR 0x0A then [] # splitLines cs
      else (case splitLines cs of
              [] \<Rightarrow> [[c]]
            | l # ls \<Rightarrow> (c # l) # ls))"

text \<open>\<^verbatim>\<open>content.split('\n')\<close>: the pieces between line feeds.\<close>

fun splitLF :: "string \<Rightarrow> string list" where
  "splitLF [] = [[]]"
| "splitLF (c # cs) =
     (if c = CHR 0x0A then [] # splitLF cs
      else (case splitLF cs of
              [] \<Rightarrow> [[c]]
            | l # ls \<Rightarrow> (c # l) # ls))"

text \<open>\<^verbatim>\<open>lines.join(eol)\<close>\<close>

fun joinWith :: "string \<Rightarrow> string list \<Rightarrow> string" where
  "joinWith sep [] = []"
| "joinWith sep [l] = l"
| "joinWith sep (l # ls) = l @ sep @ joinWith sep ls"

text \<open>
  The characters matched by \<^verbatim>\<open>\s\<close> in a regular expression, among the code units
  below 256: tab, line feed, vertical tab, form feed, carriage return, space and the
  no-break space.
\<close>

definition isSpace :: "char \<Rightarrow> bool" where
  "isSpace c = (c \<in> set [CHR 0x09, CHR 0x0A, CHR 0x0B, CHR 0x0C, CHR 0x0D, CHR 0x20, CHR 0xA0])"

section \<open>Inserting the marker at a line\<close>

text \<open>
  The rendered-mode insertion of \<^verbatim>\<open>toggleBookmark\<close> rewrites the target line as
  \<^verbatim>\<open>
  const lineContent = lines[targetLine];
  if (!lineContent.includes(BOOKMARK_MARKER)) {
      lines[targetLine] = lineContent + ' ' + BOOKMARK_MARKER;
  }\<close>
  The new content of the line, as a function of the old one:
\<close>

definition insertAtEndOfLine :: "string \<Rightarrow> string" where
  "insertAtEndOfLine lineContent =
     (if \<not> str_includes lineContent BOOKMARK_MARKER
      then lineContent @ '' '' @ BOOKMARK_MARKER
      else lineContent)"

section \<open>Numbers of the host language\<close>

text \<open>
  The estimator computes in the numbers of the host language, which are IEEE 754
  binary64 values. A number is modelled as a finite value held as an exact rational,
  the negative zero, one of the two infinities, or \<open>NaN\<close>; \<open>Finite 0\<close> is the positive
  zero. The operations below take any rational carried by \<open>Finite\<close>; the values the
  host hands over, and every result of \<open>round_double\<close>, are values of the format.
\<close>

datatype number = Finite rat | NegZero | PosInfinity | NegInfinity | NaN

fun is_negative :: "number \<Rightarrow> bool" where
  "is_negative (Finite a) = (a < 0)"
| "is_negative NegZero = True"
| "is_negative PosInfinity = False"
| "is_negative NegInfinity = True"
| "is_negative NaN = False"

fun is_zero :: "number \<Rightarrow> bool" where
  "is_zero (Finite a) = (a = 0)"
| "is_zero NegZero = True"
| "is_zero x = False"

fun is_infinity :: "number \<Rightarrow> bool" where
  "is_infinity PosInfinity = True"
| "is_infinity NegInfinity = True"
| "is_infinity x = False"

fun value_of :: "number \<Rightarrow> rat" where
  "value_of (Finite a) = a"
| "value_of x = 0"

definition signed_zero :: "bool \<Rightarrow> number" where
  "signed_zero neg = (if neg then NegZero else Finite 0)"

definition signed_infinity :: "bool \<Rightarrow> number" where
  "signed_infinity neg = (if neg then NegInfinity else PosInfinity)"

text \<open>The number of binary digits of a positive integer.\<close>

function bits :: "int \<Rightarrow> nat" where
  "bits n = (if n \<le> 0 then 0 else Suc (bits (n div 2)))"
  by pat_completeness auto
termination
  by (relation "measure nat") auto

declare bits.simps [simp del]

text \<open>
  The binary exponent of a positive rational: \<open>2 ^ ilog2 a \<le> a < 2 ^ (ilog2 a + 1)\<close>
  (lemma \<open>ilog2_bounds\<close>).
\<close>

definition ilog2 :: "rat \<Rightarrow> int" where
  "ilog2 a = (if 1 \<le> a then int (bits \<lfloor>a\<rfloor>) - 1
              else - int (bits (\<lceil>1 / a\<rceil> - 1)))"

definition pow2 :: "int \<Rightarrow> rat" where
  "pow2 e = (if 0 \<le> e then 2 ^ nat e else 1 / 2 ^ nat (- e))"

text \<open>Rounding to the nearest integer, a tie going to the even neighbour.\<close>

definition nearest_even :: "int \<Rightarrow> rat \<Rightarrow> int" where
  "nearest_even f x =
     (if x - of_int f < 1 / 2 then f
      else if 1 / 2 < x - of_int f then f + 1
      else if even f then f else f + 1)"

definition round_half_even :: "rat \<Rightarrow> int" where
  "round_half_even x = nearest_even \<lfloor>x\<rfloor> x"

text \<open>
  The number with significand \<open>m\<close> (at most \<open>2 ^ 53\<close>), exponent \<open>e\<close> and the given sign.
  The largest finite value of the format is \<open>(2 ^ 53 - 1) * 2 ^ 971\<close>; what rounds
  beyond it is an infinity, and what rounds to nothing is a zero of the same sign.
\<close>

definition scaled :: "int \<Rightarrow> int \<Rightarrow> bool \<Rightarrow> number" where
  "scaled m e neg =
     (if 971 < e \<or> (e = 971 \<and> m = 2 ^ 53) then signed_infinity neg
      else if m = 0 then signed_zero neg
      else Finite ((if neg then - 1 else 1) * of_int m * pow2 e))"

text \<open>
  The value of the format nearest to an exact result, ties to the even significand:
  53 significant binary digits, and a fixed exponent \<open>- 1074\<close> in the subnormal range.
  The exact result zero is handled by the operations, which know its sign.
\<close>

definition round_double :: "rat \<Rightarrow> number" where
  "round_double x =
     (if x = 0 then Finite 0
      else scaled (round_half_even (\<bar>x\<bar> / pow2 (max (ilog2 \<bar>x\<bar> - 52) (- 1074))))
             (max (ilog2 \<bar>x\<bar> - 52) (- 1074)) (x < 0))"

text \<open>\<^verbatim>\<open>x / y\<close>\<close>

definition divide_num :: "number \<Rightarrow> number \<Rightarrow> number" where
  "divide_num x y =
     (if x = NaN \<or> y = NaN then NaN
      else if is_infinity x then
        (if is_infinity y then NaN else signed_infinity (is_negative x \<noteq> is_negative y))
      else if is_infinity y then signed_zero (is_negative x \<noteq> is_negative y)
      else if is_zero y then
        (if is_zero x then NaN else signed_infinity (is_negative x \<noteq> is_negative y))
      else if is_zero x then signed_zero (is_negative x \<noteq> is_negative y)
      else round_double (value_of x / value_of y))"

text \<open>\<^verbatim>\<open>x * y\<close>\<close>

definition times_num :: "number \<Rightarrow> number \<Rightarrow> number" where
  "times_num x y =
     (if x = NaN \<or> y = NaN then NaN
      else if is_infinity x \<or> is_infinity y then
        (if is_zero x \<or> is_zero y then NaN
         else signed_infinity (is_negative x \<noteq> is_negative y))
      else if is_zero x \<or> is_zero y then signed_zero (is_negative x \<noteq> is_negative y)
      else round_double (value_of x * value_of y))"


text \<open>\<^verbatim>\<open>x < y\<close>: false when an operand is \<open>NaN\<close>; the two zeros are equal.\<close>

fun number_less :: "number \<Rightarrow> number \<Rightarrow> bool" where
  "number_less NaN y = False"
| "number_less x NaN = False"
| "number_less PosInfinity y = False"
| "number_less x NegInfinity = False"
| "number_less NegInfinity y = True"
| "number_less x PosInfinity = True"
| "number_less x y = (value_of x < value_of y)"

text \<open>\<^verbatim>\<open>x <= y\<close>: false when an operand is \<open>NaN\<close>.\<close>

definition number_le :: "number \<Rightarrow> number \<Rightarrow> bool" where
  "number_le x y = (x \<noteq> NaN \<and> y \<noteq> NaN \<and> \<not> number_less y x)"

text \<open>\<^verbatim>\<open>Math.floor(x)\<close>; the floor of a finite value of the format is exact.\<close>

fun Math_floor :: "number \<Rightarrow> number" where
  "Math_floor (Finite a) = Finite (of_int \<lfloor>a\<rfloor>)"
| "Math_floor x = x"

text \<open>\<^verbatim>\<open>Math.max(a, x)\<close> for a finite \<open>a\<close>; the positive zero is the larger zero.\<close>

fun Math_max :: "rat \<Rightarrow> number \<Rightarrow> number" where
  "Math_max a (Finite b) = Finite (max a b)"
| "Math_max a NegZero = (if a < 0 then NegZero else Finite a)"
| "Math_max a PosInfinity = PosInfinity"
| "Math_max a NegInfinity = Finite a"
| "Math_max a NaN = NaN"

text \<open>\<^verbatim>\<open>Math.min(x, b)\<close> for a finite \<open>b\<close>; the negative zero is the smaller zero.\<close>

fun Math_min :: "number \<Rightarrow> rat \<Rightarrow> number" where
  "Math_min (Finite a) b = Finite (min a b)"
| "Math_min NegZero b = (if 0 \<le> b then NegZero else Finite b)"
| "Math_min PosInfinity b = Finite b"
| "Math_min NegInfinity b = NegInfinity"
| "Math_min NaN b = NaN"

section \<open>Estimating the visible line in the rendered view\<close>

text \<open>
  What \<^verbatim>\<open>getVisibleLineInPreview\<close> reads from the host view. Each read may raise
  (a missing preview handle, container element or editor): \<open>None\<close> stands for a read
  that raises, \<open>Some v\<close> for one that returns \<open>v\<close>. The two numeric reads can return
  any number, \<open>NaN\<close> and the infinities included; the line count is an integer, small
  enough to be a value of the format together with its predecessor.
  \<^item> \<^verbatim>\<open>view.previewMode.getScroll()\<close>
  \<^item> \<^verbatim>\<open>view.previewMode.containerEl.scrollHeight\<close>
  \<^item> \<^verbatim>\<open>view.editor.lineCount()\<close>
\<close>

record MarkdownView =
  previewMode_getScroll :: "number option"
  containerEl_scrollHeight :: "number option"
  editor_lineCount :: "int option"

text \<open>
  The first half of the \<^verbatim>\<open>try\<close> block: the fraction of the document scrolled past.
  \<open>None\<close> is an exception leaving the block. The scroll height is read only in the
  branch that treats the scroll value as pixels, which is also the branch a \<open>NaN\<close>
  scroll value takes.
  \<^verbatim>\<open>
  const scroll = view.previewMode.getScroll();
  const containerEl = view.previewMode.containerEl;
  let scrollPercentage: number;
  if (scroll <= 100) { scrollPercentage = scroll / 100; }
  else { scrollPercentage = scroll / containerEl.scrollHeight; }\<close>
\<close>

definition scrollPercentage :: "MarkdownView \<Rightarrow> number option" where
  "scrollPercentage view =
     (case previewMode_getScroll view of
        None \<Rightarrow> None
      | Some scroll \<Rightarrow>
          if number_le scroll (Finite 100) then Some (divide_num scroll (Finite 100))
          else (case containerEl_scrollHeight view of
                  None \<Rightarrow> None
                | Some scrollHeight \<Rightarrow> Some (divide_num scroll scrollHeight)))"

text \<open>
  The whole \<^verbatim>\<open>try\<close> block, in the order the source evaluates it.
  \<^verbatim>\<open>
  const editor = view.editor;
  const totalLines = editor.lineCount();
  const estimatedLine = Math.floor(scrollPercentage * totalLines);
  const finalLine = Math.min(Math.max(0, estimatedLine), totalLines - 1);
  return finalLine;\<close>
\<close>

definition tryBlock :: "MarkdownView \<Rightarrow> number option" where
  "tryBlock view =
     (case scrollPercentage view of
        None \<Rightarrow> None
      | Some fraction \<Rightarrow>
          (case editor_lineCount view of
             None \<Rightarrow> None
           | Some totalLines \<Rightarrow>
               (let estimatedLine = Math_floor (times_num fraction (Finite (of_int totalLines)));
                    finalLine = Math_min (Math_max 0 estimatedLine) (of_int totalLines - 1)
                in Some finalLine)))"

text \<open>How a call ends: with a value, or with an exception reaching the caller.\<close>

datatype 'a completion = Normal 'a | Raised

text \<open>
  \<^verbatim>\<open>try { ... return finalLine; } catch (e) { console.error(...); } return 0;\<close>
\<close>

definition getVisibleLineInPreview :: "MarkdownView \<Rightarrow> number completion" where
  "getVisibleLineInPreview view =
     (case tryBlock view of
        Some finalLine \<Rightarrow> Normal finalLine
      | None \<Rightarrow> Normal (Finite 0))"

text \<open>
  The line a product of fraction and line count stands for: its floor, clamped to the
  valid indices. An infinite product is clamped like a finite one; \<open>NaN\<close> has no floor
  and no place in the order, and stays \<open>NaN\<close>.
\<close>

fun clampLine :: "number \<Rightarrow> int \<Rightarrow> number" where
  "clampLine (Finite p) totalLines = Finite (of_int (min (max 0 \<lfloor>p\<rfloor>) (totalLines - 1)))"
| "clampLine NegZero totalLines = Finite (of_int (min 0 (totalLines - 1)))"
| "clampLine PosInfinity totalLines = Finite (of_int (totalLines - 1))"
| "clampLine NegInfinity totalLines = Finite (of_int (min 0 (totalLines - 1)))"
| "clampLine NaN totalLines = NaN"

section \<open>Estimating the visible line in the editable view\<close>

text \<open>
  Modelled from the spec: the editable-mode estimator belongs to the bookmark manager
  (\<^verbatim>\<open>bookmarkManager.ts\<close>), whose code is not part of the sources at hand. The sample
  it works on is the one of the specification; an unknown content extent is \<open>None\<close>.
\<close>

record ViewportSample =
  scrollOffset :: number
  viewportExtent :: number
  contentExtent :: "number option"
  totalLines :: int





section \<open>Removing every marker from a document\<close>

text \<open>
  \<^verbatim>\<open>content.replace(new RegExp(`\\s*${escapedMarker}`, 'g'), '')\<close>: the global
  replacement scans from the left. At a position it matches when the longest run of
  white space starting there is directly followed by the marker (the marker begins with
  \<open><\<close>, which is not white space, so no shorter run can match); the match is deleted
  and the scan goes on behind it. Otherwise the character is kept and the scan moves one
  position on.
\<close>

function replaceBefore :: "string \<Rightarrow> string" where
  "replaceBefore [] = []"
| "replaceBefore (c # cs) =
     (if prefix BOOKMARK_MARKER (dropWhile isSpace (c # cs))
      then replaceBefore (drop (length BOOKMARK_MARKER) (dropWhile isSpace (c # cs)))
      else c # replaceBefore cs)"
  by pat_completeness auto
termination
proof (relation "measure length")
  show "wf (measure length)" by simp
next
  fix c cs
  have "length (dropWhile isSpace (c # cs)) \<le> length (c # cs)"
    by (rule length_dropWhile_le)
  then show "(drop (length BOOKMARK_MARKER) (dropWhile isSpace (c # cs)), c # cs) \<in> measure length"
    by (simp add: BOOKMARK_MARKER_def)
next
  fix c :: char and cs :: string
  show "(cs, c # cs) \<in> measure length" by simp
qed

text \<open>
  \<^verbatim>\<open>content.replace(new RegExp(`${escapedMarker}\\s*`, 'g'), '')\<close>: a match is the
  marker with the longest run of white space behind it.
\<close>

function replaceAfter :: "string \<Rightarrow> string" where
  "replaceAfter [] = []"
| "replaceAfter (c # cs) =
     (if prefix BOOKMARK_MARKER (c # cs)
      then replaceAfter (dropWhile isSpace (drop (length BOOKMARK_MARKER) (c # cs)))
      else c # replaceAfter cs)"
  by pat_completeness auto
termination
proof (relation "measure length")
  show "wf (measure length)" by simp
next
  fix c cs
  have "length (dropWhile isSpace (drop (length BOOKMARK_MARKER) (c # cs)))
          \<le> length (drop (length BOOKMARK_MARKER) (c # cs))"
    by (rule length_dropWhile_le)
  then show "(dropWhile isSpace (drop (length BOOKMARK_MARKER) (c # cs)), c # cs) \<in> measure length"
    by (simp add: BOOKMARK_MARKER_def)
next
  fix c :: char and cs :: string
  show "(cs, c # cs) \<in> measure length" by simp
qed


text \<open>
  The revision before it chains two replacements,
  \<^verbatim>\<open>content.replace(beforeRe, '').replace(afterRe, '')\<close>:
\<close>

definition cleanupMultipleBookmarks_two_pass :: "string \<Rightarrow> string" where
  "cleanupMultipleBookmarks_two_pass content = replaceAfter (replaceBefore content)"


section \<open>Toggling the bookmark in the rendered view\<close>

text \<open>
  \<^verbatim>\<open>export interface BookmarkState { hasBookmark: boolean; lineNumber: number | null; }\<close>
  (constants.ts)
\<close>

record BookmarkState =
  hasBookmark :: bool
  lineNumber :: "nat option"

text \<open>
  Modelled from the spec: the scan of \<^verbatim>\<open>BookmarkManager.findBookmark\<close>. The class
  \<^verbatim>\<open>BookmarkManager\<close> (bookmarkManager.ts) is imported by the plugin but is not among
  the sources. The specification gives the contract of \<open>find\<close>: it "scans lines
  top-to-bottom, returns the first line containing the marker token".
  \<open>firstLineWithMarker ls i\<close> scans the lines \<open>ls\<close>, the first of which has index
  \<open>i\<close>.
\<close>

fun firstLineWithMarker :: "string list \<Rightarrow> nat \<Rightarrow> nat option" where
  "firstLineWithMarker [] i = None"
| "firstLineWithMarker (l # ls) i =
     (if str_includes l BOOKMARK_MARKER then Some i else firstLineWithMarker ls (i + 1))"

text \<open>
  Modelled from the spec: \<^verbatim>\<open>BookmarkManager.findBookmark\<close> (missing with
  \<^verbatim>\<open>BookmarkManager\<close>): it returns "the first line containing the marker token and
  present=true; if none, present=false, line=null", and "marker matching must tolerate
  both \n and \r\n line endings".
\<close>

definition findBookmark :: "string \<Rightarrow> BookmarkState" where
  "findBookmark content =
     (case firstLineWithMarker (splitLines content) 0 of
        None \<Rightarrow> \<lparr>hasBookmark = False, lineNumber = None\<rparr>
      | Some i \<Rightarrow> \<lparr>hasBookmark = True, lineNumber = Some i\<rparr>)"

text \<open>\<^verbatim>\<open>const eol = content.includes('\r\n') ? '\r\n' : '\n';\<close>\<close>

definition eol :: "string \<Rightarrow> string" where
  "eol content = (if str_includes content CRLF then CRLF else LF)"

text \<open>
  The search for the end of the front matter:
  \<^verbatim>\<open>
  let frontmatterEndIndex = -1;
  if (lines[0] === '---') {
      for (let i = 1; i < lines.length; i++) {
          if (lines[i] === '---') { frontmatterEndIndex = i; break; }
      }
  }\<close>
  \<open>findClosing ls i\<close> is the loop over the remaining lines \<open>ls\<close>, the first of which
  has index \<open>i\<close>.
\<close>

fun findClosing :: "string list \<Rightarrow> nat \<Rightarrow> int" where
  "findClosing [] i = -1"
| "findClosing (l # ls) i = (if l = ''---'' then int i else findClosing ls (i + 1))"

definition frontmatterEndIndex :: "string list \<Rightarrow> int" where
  "frontmatterEndIndex lines =
     (case lines of
        [] \<Rightarrow> -1
      | l0 # rest \<Rightarrow> if l0 = ''---'' then findClosing rest 1 else -1)"

text \<open>
  The line the rendered-mode insertion writes to, from the estimated visible line
  (an integer, by the bounds of the estimator) and the lines of the file:
  \<^verbatim>\<open>
  let targetLine = Math.min(visibleLine, lines.length - 1);
  ...
  if (frontmatterEndIndex !== -1 && targetLine <= frontmatterEndIndex) {
      targetLine = Math.min(frontmatterEndIndex + 1, lines.length - 1);
  }
  targetLine = Math.max(0, Math.min(targetLine, lines.length - 1));\<close>
\<close>

definition targetLine :: "int \<Rightarrow> string list \<Rightarrow> int" where
  "targetLine visibleLine lines =
     (let len = int (length lines);
          targetLine0 = min visibleLine (len - 1);
          targetLine1 =
            (if frontmatterEndIndex lines \<noteq> -1 \<and> targetLine0 \<le> frontmatterEndIndex lines
             then min (frontmatterEndIndex lines + 1) (len - 1)
             else targetLine0)
      in max 0 (min targetLine1 (len - 1)))"

text \<open>
  The function \<^verbatim>\<open>toggleBookmark\<close> passes to \<^verbatim>\<open>vault.process\<close> when no bookmark
  exists and the view is in rendered mode: from the content of the file to its new
  content. The split always gives at least one line and the target line is clamped, so
  \<^verbatim>\<open>lines[targetLine]\<close> is a line of the file.
  \<^verbatim>\<open>
  const eol = content.includes('\r\n') ? '\r\n' : '\n';
  const lines = content.split(/\r?\n/);
  ... targetLine ...
  const lineContent = lines[targetLine];
  if (!lineContent.includes(BOOKMARK_MARKER)) {
      lines[targetLine] = lineContent + ' ' + BOOKMARK_MARKER;
  }
  return lines.join(eol);\<close>
\<close>

definition toggleBookmark_insert :: "int \<Rightarrow> string \<Rightarrow> string" where
  "toggleBookmark_insert visibleLine content =
     (let lines = splitLines content;
          t = nat (targetLine visibleLine lines)
      in joinWith (eol content) (lines[t := insertAtEndOfLine (lines ! t)]))"

text \<open>
  The rewrite of the marked line in the deferred removal:
  \<^verbatim>\<open>
  const markerIndex = lineContent.indexOf(BOOKMARK_MARKER);
  if (markerIndex !== -1) {
      let startPos = markerIndex;
      if (startPos > 0 && lineContent[startPos - 1] === ' ') { startPos--; }
      lines[bookmarkState.lineNumber] = lineContent.slice(0, startPos)
          + lineContent.slice(markerIndex + BOOKMARK_MARKER.length);
  }\<close>
\<close>

definition removeFromLine :: "string \<Rightarrow> string" where
  "removeFromLine lineContent =
     (let markerIndex = indexOf lineContent BOOKMARK_MARKER in
      if markerIndex \<noteq> -1 then
        (let startPos =
               (if markerIndex > 0 \<and> lineContent ! (nat markerIndex - 1) = CHR '' ''
                then markerIndex - 1 else markerIndex)
         in slice lineContent 0 (nat startPos)
            @ sliceFrom lineContent (nat markerIndex + length BOOKMARK_MARKER))
      else lineContent)"

text \<open>
  The function the deferred removal (the \<^verbatim>\<open>setTimeout(..., 500)\<close> callback of
  \<^verbatim>\<open>toggleBookmark\<close>) passes to \<^verbatim>\<open>vault.process\<close> in rendered mode. Its
  argument is the content of the file when the timer fires. Reading a line beyond the
  end of the array gives \<^verbatim>\<open>undefined\<close>, which the source tests for.
  \<^verbatim>\<open>
  const bookmarkState = this.bookmarkManager.findBookmark(content);
  if (bookmarkState.hasBookmark && bookmarkState.lineNumber !== null) {
      const eol = content.includes('\r\n') ? '\r\n' : '\n';
      const lines = content.split(/\r?\n/);
      const lineContent = lines[bookmarkState.lineNumber];
      if (lineContent === undefined) return content;
      ... rewrite of the line ...
      return lines.join(eol);
  }
  return content;\<close>
\<close>

definition toggleBookmark_remove :: "string \<Rightarrow> string" where
  "toggleBookmark_remove content =
     (let bookmarkState = findBookmark content in
      if hasBookmark bookmarkState \<and> lineNumber bookmarkState \<noteq> None then
        (let lines = splitLines content;
             n = the (lineNumber bookmarkState)
         in if length lines \<le> n then content
            else joinWith (eol content) (lines[n := removeFromLine (lines ! n)]))
      else content)"

text \<open>
  The newest revision rewrites the marked line with the cleanup pattern instead,
  \<^verbatim>\<open>lines[bookmarkState.lineNumber] = lineContent.replace(MARKER_CLEANUP_RE, '');\<close>
  and is otherwise the same function.
\<close>

definition toggleBookmark_remove_regex :: "string \<Rightarrow> string" where
  "toggleBookmark_remove_regex content =
     (let bookmarkState = findBookmark content in
      if hasBookmark bookmarkState \<and> lineNumber bookmarkState \<noteq> None then
        (let lines = splitLines content;
             n = the (lineNumber bookmarkState)
         in if length lines \<le> n then content
            else joinWith (eol content) (lines[n := replaceBefore (lines ! n)]))
      else content)"

section \<open>Decorations of the editor\<close>

text \<open>
  \<^verbatim>\<open>Decoration.line({ class: 'cm-bookmark-line' })\<close> and
  \<^verbatim>\<open>Decoration.mark({ class: 'cm-bookmark-marker-hidden' })\<close>, with their class.
\<close>

datatype Decoration = LineDecoration string | MarkDecoration string

text \<open>What \<^verbatim>\<open>builder.add(from, to, value)\<close> records.\<close>

datatype Range = Range nat nat Decoration

text \<open>
  The document of the editor is represented by its text, \<^verbatim>\<open>view.state.doc.toString()\<close>,
  whose lines are separated by a line feed. \<open>lineFrom ls i\<close> is the offset at which
  line \<open>i\<close> (counted from 0) of the lines \<open>ls\<close> starts: every earlier line takes its
  length and one line feed.
\<close>

fun lineFrom :: "string list \<Rightarrow> nat \<Rightarrow> nat" where
  "lineFrom ls 0 = 0"
| "lineFrom [] (Suc i) = 0"
| "lineFrom (l # ls) (Suc i) = length l + 1 + lineFrom ls i"

text \<open>
  \<^verbatim>\<open>view.state.doc.line(n).from\<close>: lines are numbered from 1, and a number outside
  \<open>1 .. doc.lines\<close> raises a \<^verbatim>\<open>RangeError\<close> (\<open>None\<close>).
\<close>

definition doc_line :: "string \<Rightarrow> nat \<Rightarrow> nat option" where
  "doc_line content n =
     (if 1 \<le> n \<and> n \<le> length (splitLF content)
      then Some (lineFrom (splitLF content) (n - 1))
      else None)"

text \<open>
  The body of the \<^verbatim>\<open>forEach\<close> callback of \<^verbatim>\<open>buildDecorations\<close>: the ranges one
  line adds to the builder, in the order they are added. An exception inside the
  \<^verbatim>\<open>try\<close> block skips the line.
  \<^verbatim>\<open>
  if (lineContent.includes(BOOKMARK_MARKER)) {
      try {
          const line = view.state.doc.line(index + 1);
          if (line) {
              builder.add(line.from, line.from, Decoration.line({ class: 'cm-bookmark-line' }));
              const markerStart = lineContent.indexOf(BOOKMARK_MARKER);
              if (markerStart !== -1) {
                  const absoluteMarkerStart = line.from + markerStart;
                  const absoluteMarkerEnd = absoluteMarkerStart + BOOKMARK_MARKER.length;
                  builder.add(absoluteMarkerStart, absoluteMarkerEnd,
                      Decoration.mark({ class: 'cm-bookmark-marker-hidden' }));
              }
          }
      } catch (e) { }
  }\<close>
\<close>

definition decorateLine :: "string \<Rightarrow> string \<Rightarrow> nat \<Rightarrow> Range list" where
  "decorateLine content lineContent index =
     (if str_includes lineContent BOOKMARK_MARKER then
        (case doc_line content (index + 1) of
           None \<Rightarrow> []
         | Some from \<Rightarrow>
             Range from from (LineDecoration ''cm-bookmark-line'') #
             (let markerStart = indexOf lineContent BOOKMARK_MARKER in
              if markerStart \<noteq> -1 then
                (let absoluteMarkerStart = from + nat markerStart;
                     absoluteMarkerEnd = absoluteMarkerStart + length BOOKMARK_MARKER
                 in [Range absoluteMarkerStart absoluteMarkerEnd
                       (MarkDecoration ''cm-bookmark-marker-hidden'')])
              else []))
      else [])"

text \<open>\<^verbatim>\<open>lines.forEach((lineContent, index) => ...)\<close>, from the line with index \<open>index\<close> on.\<close>

fun forEachLine :: "string \<Rightarrow> string list \<Rightarrow> nat \<Rightarrow> Range list" where
  "forEachLine content [] index = []"
| "forEachLine content (lineContent # rest) index =
     decorateLine content lineContent index @ forEachLine content rest (index + 1)"

text \<open>
  \<^verbatim>\<open>
  const content = view.state.doc.toString();
  const lines = content.split('\n');
  lines.forEach(...);
  return builder.finish();\<close>
\<close>

definition buildDecorations :: "string \<Rightarrow> Range list" where
  "buildDecorations content = forEachLine content (splitLF content) 0"

text \<open>The start of a recorded range.\<close>

fun rangeFrom :: "Range \<Rightarrow> nat" where
  "rangeFrom (Range from to v) = from"

section \<open>Placement in the editable view\<close>

text \<open>
  The editable-mode insertion is \<^verbatim>\<open>BookmarkManager.insertBookmark\<close>, which the plugin
  calls but which is not among the sources. Its placement policy is modelled from
  section 4.2 of the specification, \<open>resolveTarget(document, candidateLine)\<close>.
\<close>

text \<open>
  Modelled from the spec: the test for a fence-delimiter line, missing with
  \<^verbatim>\<open>BookmarkManager\<close>: "lines whose content begins with the fence token".
\<close>

definition isFenceDelimiter :: "string \<Rightarrow> bool" where
  "isFenceDelimiter l = prefix ''```'' l"

text \<open>
  Modelled from the spec: "the count of fence-delimiter lines [...] at or before it,
  scanning from document start" (missing with \<^verbatim>\<open>BookmarkManager\<close>).
\<close>

definition fenceCount :: "string list \<Rightarrow> nat \<Rightarrow> nat" where
  "fenceCount lines k = length (filter isFenceDelimiter (take (k + 1) lines))"

text \<open>
  Modelled from the spec: "a line is inside a fence if the count [...] is odd"
  (missing with \<^verbatim>\<open>BookmarkManager\<close>).
\<close>

definition insideFence :: "string list \<Rightarrow> nat \<Rightarrow> bool" where
  "insideFence lines k = odd (fenceCount lines k)"

text \<open>
  Modelled from the spec: "the opening fence-delimiter line" (missing with
  \<^verbatim>\<open>BookmarkManager\<close>). By the parity rule above a delimiter line opens a fence
  when the count of delimiter lines up to and including it is odd, and closes one when
  that count is even.
\<close>

definition opensFence :: "string list \<Rightarrow> nat \<Rightarrow> bool" where
  "opensFence lines i = (isFenceDelimiter (lines ! i) \<and> insideFence lines i)"

text \<open>
  Modelled from the spec: "walk backward to find the opening fence-delimiter line"
  (missing with \<^verbatim>\<open>BookmarkManager\<close>): from line \<open>k\<close> towards the start of the
  document, the first line that opens a fence.
\<close>

fun walkBack :: "string list \<Rightarrow> nat \<Rightarrow> nat option" where
  "walkBack lines 0 = (if opensFence lines 0 then Some 0 else None)"
| "walkBack lines (Suc k) = (if opensFence lines (Suc k) then Some (Suc k) else walkBack lines k)"

text \<open>
  Modelled from the spec: rule 1 of the placement policy (missing with
  \<^verbatim>\<open>BookmarkManager\<close>): "if the document begins with a header delimiter line and the
  candidate line falls within the header block (from the opening delimiter up to and
  including the matching closing delimiter), relocate the candidate to the line
  immediately after the closing delimiter, clamped to the last valid line index".
\<close>

definition headerAvoidance :: "string list \<Rightarrow> int \<Rightarrow> int" where
  "headerAvoidance lines candidate =
     (if frontmatterEndIndex lines \<noteq> -1 \<and> 0 \<le> candidate \<and> candidate \<le> frontmatterEndIndex lines
      then min (frontmatterEndIndex lines + 1) (int (length lines) - 1)
      else candidate)"

text \<open>
  Modelled from the spec: \<open>resolveTarget\<close>, the placement policy of the editable-mode
  insertion (missing with \<^verbatim>\<open>BookmarkManager\<close>). The rules are applied in order:
  header avoidance; then "if the candidate line is a fence-delimiter line itself or is
  inside a fence, walk backward to find the opening fence-delimiter line; if found at
  index i > 0, retarget to i - 1 [...]. If the fence has no preceding line (i == 0),
  fall back to the start of the document (after re-applying header avoidance)"; then
  the "final clamp: result is always within [0, lastLineIndex]".
\<close>

definition resolveTarget :: "string list \<Rightarrow> int \<Rightarrow> int" where
  "resolveTarget lines candidate =
     (let c1 = headerAvoidance lines candidate;
          c2 = (if 0 \<le> c1 \<and> c1 < int (length lines) \<and>
                   (isFenceDelimiter (lines ! nat c1) \<or> insideFence lines (nat c1))
                then (case walkBack lines (nat c1) of
                        Some i \<Rightarrow> if 0 < i then int i - 1 else headerAvoidance lines 0
                      | None \<Rightarrow> c1)
                else c1)
      in max 0 (min c2 (int (length lines) - 1)))"

section \<open>The earlier revision of the rendered-mode insertion\<close>

text \<open>
  The sources keep earlier revisions of the plugin beside the newest one. In the last
  revision kept in main.ts the rendered-mode insertion split at line feeds only, left
  the header only from line 0 and appended the marker without looking for one:
  \<^verbatim>\<open>
  const lines = content.split('\n');
  let targetLine = Math.min(visibleLine, lines.length - 1);
  if (lines[0] === '---' && targetLine === 0) {
      for (let i = 1; i < lines.length; i++) {
          if (lines[i] === '---') { targetLine = Math.min(i + 1, lines.length - 1); break; }
      }
  }
  targetLine = Math.max(0, Math.min(targetLine, lines.length - 1));
  lines[targetLine] = lines[targetLine] + ' ' + BOOKMARK_MARKER;
  return lines.join('\n');\<close>
  It is embedded here to record where it differs from the revisions that replaced it;
  the claims are settled on those.
\<close>

definition targetLine_earlier :: "int \<Rightarrow> string list \<Rightarrow> int" where
  "targetLine_earlier visibleLine lines =
     (let len = int (length lines);
          targetLine0 = min visibleLine (len - 1);
          targetLine1 =
            (if frontmatterEndIndex lines \<noteq> -1 \<and> targetLine0 = 0
             then min (frontmatterEndIndex lines + 1) (len - 1)
             else targetLine0)
      in max 0 (min targetLine1 (len - 1)))"

definition toggleBookmark_insert_earlier :: "int \<Rightarrow> string \<Rightarrow> string" where
  "toggleBookmark_insert_earlier visibleLine content =
     (let lines = splitLF content;
          t = nat (targetLine_earlier visibleLine lines)
      in joinWith LF (lines[t := lines ! t @ '' '' @ BOOKMARK_MARKER]))"

section \<open>Facts about the string operations\<close>

lemma includes_iff: "str_includes s sub \<longleftrightarrow> (\<exists>ps ss. s = ps @ sub @ ss)"
proof (induction s)
  case Nil
  then show ?case by auto
next
  case (Cons c cs)
  show ?case
  proof
    assume "str_includes (c # cs) sub"
    then consider "prefix sub (c # cs)" | "str_includes cs sub" by auto
    then show "\<exists>ps ss. c # cs = ps @ sub @ ss"
    proof cases
      case 1
      then obtain zs where "c # cs = sub @ zs" by (auto simp: prefix_def)
      then have "c # cs = [] @ sub @ zs" by simp
      then show ?thesis by blast
    next
      case 2
      with Cons.IH obtain ps ss where "cs = ps @ sub @ ss" by blast
      then have "c # cs = (c # ps) @ sub @ ss" by simp
      then show ?thesis by blast
    qed
  next
    assume "\<exists>ps ss. c # cs = ps @ sub @ ss"
    then obtain ps ss where e: "c # cs = ps @ sub @ ss" by blast
    show "str_includes (c # cs) sub"
    proof (cases ps)
      case Nil
      with e have "prefix sub (c # cs)" by (simp add: prefix_def)
      then show ?thesis by simp
    next
      case (Cons p ps')
      with e have "cs = ps' @ sub @ ss" by simp
      with Cons.IH have "str_includes cs sub" by blast
      then show ?thesis by simp
    qed
  qed
qed

lemma includes_append_marker: "str_includes (l @ sep @ m) m"
proof -
  have "l @ sep @ m = (l @ sep) @ m @ []" by simp
  then show ?thesis unfolding includes_iff by blast
qed

lemma includes_append_Cons_marker: "str_includes (l @ c # m) m"
  using includes_append_marker [of l "[c]" m] by simp

section \<open>Facts about the numbers\<close>

lemma bits_bounds: "0 < n \<Longrightarrow> 2 ^ (bits n - 1) \<le> n \<and> n < 2 ^ bits n"
proof (induction n rule: bits.induct)
  case (1 n)
  from "1.prems" have nz: "\<not> n \<le> 0" by simp
  have e: "bits n = Suc (bits (n div 2))" using nz by (subst bits.simps) simp
  show ?case
  proof (cases "n div 2 = 0")
    case True
    with "1.prems" have "n = 1" by presburger
    then show ?thesis by (simp add: bits.simps)
  next
    case False
    with "1.prems" have p: "0 < n div 2" by presburger
    from "1.IH" [OF nz p] have a: "2 ^ (bits (n div 2) - 1) \<le> n div 2" and b: "n div 2 < 2 ^ bits (n div 2)"
      by simp_all
    have pos: "0 < bits (n div 2)" using p by (subst bits.simps) simp
    then obtain j where j: "bits (n div 2) = Suc j" by (cases "bits (n div 2)") auto
    from a j have "2 * 2 ^ j \<le> 2 * (n div 2)" by simp
    also have "\<dots> \<le> n" by presburger
    finally have l: "2 ^ (bits n - 1) \<le> n" using e j by simp
    from b have "n div 2 + 1 \<le> 2 ^ bits (n div 2)" by simp
    then have "2 * (n div 2) + 2 \<le> 2 * 2 ^ bits (n div 2)" by simp
    moreover have "n < 2 * (n div 2) + 2" by presburger
    ultimately have "n < 2 ^ bits n" using e by simp
    with l show ?thesis by simp
  qed
qed

lemma ilog2_bounds:
  assumes "0 < a"
  shows "pow2 (ilog2 a) \<le> a \<and> a < pow2 (ilog2 a + 1)"
proof (cases "1 \<le> a")
  case True
  then have f: "0 < \<lfloor>a\<rfloor>" by simp
  from bits_bounds [OF f] have l: "2 ^ (bits \<lfloor>a\<rfloor> - 1) \<le> \<lfloor>a\<rfloor>" and u: "\<lfloor>a\<rfloor> < 2 ^ bits \<lfloor>a\<rfloor>"
    by simp_all
  have pos: "0 < bits \<lfloor>a\<rfloor>" using f by (subst bits.simps) simp
  then obtain j where j: "bits \<lfloor>a\<rfloor> = Suc j" by (cases "bits \<lfloor>a\<rfloor>") auto
  have i: "ilog2 a = int j" using True j by (simp add: ilog2_def)
  from l j have "(2::int) ^ j \<le> \<lfloor>a\<rfloor>" by simp
  then have "of_int ((2::int) ^ j) \<le> (of_int \<lfloor>a\<rfloor> :: rat)" by (simp only: of_int_le_iff)
  also have "\<dots> \<le> a" by simp
  finally have lo: "pow2 (int j) \<le> a" by (simp add: pow2_def)
  from u j have "\<lfloor>a\<rfloor> + 1 \<le> 2 ^ Suc j" by simp
  then have "(of_int (\<lfloor>a\<rfloor> + 1) :: rat) \<le> of_int (2 ^ Suc j)" by (simp only: of_int_le_iff)
  moreover have "a < of_int (\<lfloor>a\<rfloor> + 1)" by linarith
  ultimately have "a < pow2 (int j + 1)" by (simp add: pow2_def nat_add_distrib)
  with lo i show ?thesis by simp
next
  case False
  with assms have inv: "1 < 1 / a" by simp
  let ?c = "\<lceil>1 / a\<rceil>"
  from inv have c2: "0 < ?c - 1" by linarith
  from bits_bounds [OF c2] have l: "2 ^ (bits (?c - 1) - 1) \<le> ?c - 1" and u: "?c - 1 < 2 ^ bits (?c - 1)"
    by simp_all
  have pos: "0 < bits (?c - 1)" using c2 by (subst bits.simps) simp
  then obtain j where j: "bits (?c - 1) = Suc j" by (cases "bits (?c - 1)") auto
  have i: "ilog2 a = - int (Suc j)" using False j by (simp add: ilog2_def)
  from u j have "?c \<le> 2 ^ Suc j" by simp
  then have "(of_int ?c :: rat) \<le> of_int (2 ^ Suc j)" by (simp only: of_int_le_iff)
  then have "(of_int ?c :: rat) \<le> 2 ^ Suc j" by simp
  with le_of_int_ceiling [of "1 / a"] have "1 / a \<le> 2 ^ Suc j" by (rule order_trans)
  with assms have "1 \<le> a * 2 ^ Suc j" by (simp add: field_simps)
  then have h: "1 / 2 ^ Suc j \<le> a" by (simp add: field_simps)
  have e1: "pow2 (- int (Suc j)) = 1 / 2 ^ Suc j"
    by (simp add: pow2_def nat_add_distrib)
  have lo: "pow2 (- int (Suc j)) \<le> a" unfolding e1 by (rule h)
  from l j have "(2::int) ^ j \<le> ?c - 1" by simp
  then have "(of_int ((2::int) ^ j) :: rat) \<le> of_int (?c - 1)" by (simp only: of_int_le_iff)
  moreover have "(of_int (?c - 1) :: rat) < 1 / a" by linarith
  ultimately have "2 ^ j < 1 / a" by simp
  with assms have "a * 2 ^ j < 1" by (simp add: field_simps)
  then have h2: "a < 1 / 2 ^ j" by (simp add: field_simps)
  have e2: "pow2 (- int (Suc j) + 1) = 1 / 2 ^ j" by (simp add: pow2_def)
  have "a < pow2 (- int (Suc j) + 1)" unfolding e2 by (rule h2)
  with lo show ?thesis unfolding i by (rule conjI)
qed

lemma round_half_even_nearest: "\<bar>of_int (round_half_even x) - x\<bar> \<le> 1 / 2"
proof -
  define f where "f = \<lfloor>x\<rfloor>"
  have "of_int f \<le> x" and "x < of_int f + 1" unfolding f_def by linarith+
  then have "\<bar>of_int (nearest_even f x) - x\<bar> \<le> 1 / 2"
    by (auto simp: nearest_even_def abs_if)
  then show ?thesis by (simp add: round_half_even_def f_def)
qed

text \<open>
  Roundings of the format: a tenth, 29 hundredths, a third, a negative value, the two
  ties just above \<open>2 ^ 53\<close> (one going down, one going up to the even significand), and
  an integer, which is kept.
\<close>

lemma round_double_examples:
  "round_double (1 / 10) = Finite (3602879701896397 / 36028797018963968)"
  "round_double (29 / 100) = Finite (5224175567749775 / 18014398509481984)"
  "round_double (1 / 3) = Finite (6004799503160661 / 18014398509481984)"
  "round_double (- 7 / 5) = Finite (- 3152519739159347 / 2251799813685248)"
  "round_double 9007199254740993 = Finite 9007199254740992"
  "round_double 9007199254740995 = Finite 9007199254740996"
  "round_double 50 = Finite 50"
  by code_simp+




section \<open>Facts about the estimators\<close>

lemma clamp_is_clampLine:
  "Math_min (Math_max 0 (Math_floor x)) (of_int n - 1) = clampLine x n"
  by (cases x) (auto simp: max_def min_def)


lemma result_by_fraction:
  assumes "scrollPercentage view = Some f" and "editor_lineCount view = Some n"
  shows "getVisibleLineInPreview view = Normal (clampLine (times_num f (Finite (of_int n))) n)"
  using assms by (simp add: getVisibleLineInPreview_def tryBlock_def clamp_is_clampLine)




text \<open>
  The arithmetic of the format shows in the line returned: 29 percent of 100 lines is
  line 28, because the quotient \<open>29 / 100\<close> rounds below 29 hundredths and the product
  with 100 rounds to the value just below 29.
\<close>

lemma rounding_shows_in_the_line:
  "getVisibleLineInPreview \<lparr>previewMode_getScroll = Some (Finite 29),
      containerEl_scrollHeight = Some (Finite 1000), editor_lineCount = Some 100\<rparr>
     = Normal (Finite 28)"
  "getVisibleLineInPreview \<lparr>previewMode_getScroll = Some (Finite 290),
      containerEl_scrollHeight = Some (Finite 1000), editor_lineCount = Some 100\<rparr>
     = Normal (Finite 28)"
  by code_simp+

text \<open>
  A container of height zero does not raise: the pixel branch divides by zero, the
  fraction is infinite and the clamp gives the last line.
\<close>

lemma zero_scrollHeight_last_line:
  assumes "previewMode_getScroll view = Some scroll" and "number_less (Finite 100) scroll"
    and "containerEl_scrollHeight view = Some (Finite 0)"
    and "editor_lineCount view = Some n" and "0 < n"
  shows "getVisibleLineInPreview view = Normal (Finite (of_int (n - 1)))"
proof -
  from assms(2) have "\<not> number_le scroll (Finite 100)" by (simp add: number_le_def)
  with assms(1,3) have p: "scrollPercentage view = Some (divide_num scroll (Finite 0))"
    by (simp add: scrollPercentage_def)
  from assms(2) have "divide_num scroll (Finite 0) = PosInfinity"
    by (cases scroll) (auto simp: divide_num_def signed_infinity_def)
  with assms(5) have "times_num (divide_num scroll (Finite 0)) (Finite (of_int n)) = PosInfinity"
    by (simp add: times_num_def signed_infinity_def)
  with result_by_fraction [OF p assms(4)] show ?thesis by simp
qed

section \<open>Facts about the cleanup\<close>


lemma includes_sublist: "str_includes s sub \<longleftrightarrow> sublist sub s"
  by (simp add: includes_iff sublist_def)












text \<open>
  The two-pattern cleanup deletes a marker that the first pattern leaves behind, but
  not one that its own second pattern leaves behind.
\<close>

lemma two_pass_not_idempotent:
  "cleanupMultipleBookmarks_two_pass
     ''<!-- bookmark<!-- bookmark<!-- bookmark-marker -->-marker -->-marker -->'' =
   ''<!-- bookmark-marker -->'' \<and>
   cleanupMultipleBookmarks_two_pass ''<!-- bookmark-marker -->'' = ''''"
  by (simp add: cleanupMultipleBookmarks_two_pass_def BOOKMARK_MARKER_def isSpace_def)






section \<open>Facts about the rendered-mode rewrites\<close>

lemma splitLines_nonempty: "splitLines s \<noteq> []"
  by (induction s rule: splitLines.induct) (auto split: list.splits)

lemma splitLines_Cons:
  "splitLines (c # cs) =
     (if c = CHR 0x0D \<and> cs \<noteq> [] \<and> hd cs = CHR 0x0A then [] # splitLines (tl cs)
      else if c = CHR 0x0A then [] # splitLines cs
      else (c # hd (splitLines cs)) # tl (splitLines cs))"
  using splitLines_nonempty [of cs] by (simp split: list.splits)

lemma findClosing_first:
  "k < length ls \<Longrightarrow> ls ! k = ''---'' \<Longrightarrow> (\<forall>j<k. ls ! j \<noteq> ''---'') \<Longrightarrow>
   findClosing ls i = int (i + k)"
proof (induction ls arbitrary: i k)
  case Nil
  then show ?case by simp
next
  case (Cons l ls)
  show ?case
  proof (cases k)
    case 0
    with Cons.prems show ?thesis by simp
  next
    case (Suc k')
    with Cons.prems have "l \<noteq> ''---''" by auto
    moreover have "findClosing ls (i + 1) = int (i + 1 + k')"
    proof (rule Cons.IH)
      show "k' < length ls" using Cons.prems Suc by simp
      show "ls ! k' = ''---''" using Cons.prems Suc by simp
      show "\<forall>j<k'. ls ! j \<noteq> ''---''" using Cons.prems(3) Suc by auto
    qed
    ultimately show ?thesis using Suc by simp
  qed
qed

lemma frontmatterEndIndex_closing:
  assumes "lines \<noteq> []" and "lines ! 0 = ''---''"
    and "0 < e" and "e < length lines" and "lines ! e = ''---''"
    and "\<forall>j. 0 < j \<and> j < e \<longrightarrow> lines ! j \<noteq> ''---''"
  shows "frontmatterEndIndex lines = int e"
proof -
  from assms(1) obtain l0 rest where l: "lines = l0 # rest" by (cases lines) auto
  with assms(2) have l0: "l0 = ''---''" by simp
  from assms(3) obtain k where k: "e = Suc k" by (cases e) auto
  have "findClosing rest 1 = int (1 + k)"
  proof (rule findClosing_first)
    show "k < length rest" using assms(4) l k by simp
    show "rest ! k = ''---''" using assms(5) l k by simp
    show "\<forall>j<k. rest ! j \<noteq> ''---''"
    proof (intro allI impI)
      fix j assume "j < k"
      then have "0 < Suc j \<and> Suc j < e" using k by simp
      with assms(6) have "lines ! Suc j \<noteq> ''---''" by blast
      then show "rest ! j \<noteq> ''---''" using l by simp
    qed
  qed
  with l l0 k show ?thesis by (simp add: frontmatterEndIndex_def)
qed

lemma hd_splitLines_prefix: "prefix (hd (splitLines s)) s"
  by (induction s rule: splitLines.induct) (auto simp: splitLines_Cons simp del: splitLines.simps(2))

lemma line_sublist: "l \<in> set (splitLines s) \<Longrightarrow> sublist l s"
proof (induction s arbitrary: l rule: splitLines.induct)
  case 1
  then show ?case by simp
next
  case (2 c cs)
  show ?case
  proof (cases "c = CHR 0x0D \<and> cs \<noteq> [] \<and> hd cs = CHR 0x0A")
    case True
    with "2.prems" consider "l = []" | "l \<in> set (splitLines (tl cs))"
      by (auto simp: splitLines_Cons simp del: splitLines.simps(2))
    then show ?thesis
    proof cases
      case 1
      then show ?thesis by simp
    next
      case 2
      with True "2.IH"(1) have "sublist l (tl cs)" by blast
      moreover have "sublist (tl cs) (c # cs)"
        using sublist_drop [of 2 "c # cs"] by (simp add: drop_Suc)
      ultimately show ?thesis by (rule sublist_order.order.trans)
    qed
  next
    case False
    note nocrlf = this
    show ?thesis
    proof (cases "c = CHR 0x0A")
      case True
      with nocrlf "2.prems" consider "l = []" | "l \<in> set (splitLines cs)"
        by (auto simp: splitLines_Cons simp del: splitLines.simps(2))
      then show ?thesis
      proof cases
        case 1
        then show ?thesis by simp
      next
        case 2
        with True nocrlf "2.IH"(2) have "sublist l cs" by blast
        then show ?thesis by (simp add: sublist_Cons_right)
      qed
    next
      case False
      with nocrlf "2.prems"
      consider "l = c # hd (splitLines cs)" | "l \<in> set (tl (splitLines cs))"
        by (auto simp: splitLines_Cons simp del: splitLines.simps(2))
      then show ?thesis
      proof cases
        case 1
        have "prefix (hd (splitLines cs)) cs" by (rule hd_splitLines_prefix)
        with 1 have "prefix l (c # cs)" by simp
        then show ?thesis by (rule prefix_imp_sublist)
      next
        case 2
        then have "l \<in> set (splitLines cs)" by (rule list.set_sel(2) [rotated]) (simp add: splitLines_nonempty)
        with False nocrlf "2.IH"(3) have "sublist l cs" by blast
        then show ?thesis by (simp add: sublist_Cons_right)
      qed
    qed
  qed
qed

lemma line_includes:
  assumes "l \<in> set (splitLines s)" and "str_includes l m"
  shows "str_includes s m"
proof -
  from assms(2) have "sublist m l" by (simp add: includes_sublist)
  moreover from assms(1) have "sublist l s" by (rule line_sublist)
  ultimately have "sublist m s" by (rule sublist_order.order.trans)
  then show ?thesis by (simp add: includes_sublist)
qed

lemma firstLineWithMarker_None:
  "(\<forall>l\<in>set ls. \<not> str_includes l BOOKMARK_MARKER) \<Longrightarrow> firstLineWithMarker ls i = None"
  by (induction ls arbitrary: i) auto

lemma firstLineWithMarker_Some:
  "firstLineWithMarker ls i = Some n \<Longrightarrow>
   i \<le> n \<and> n - i < length ls \<and> str_includes (ls ! (n - i)) BOOKMARK_MARKER \<and>
   (\<forall>j<n - i. \<not> str_includes (ls ! j) BOOKMARK_MARKER)"
proof (induction ls arbitrary: i)
  case Nil
  then show ?case by simp
next
  case (Cons l ls)
  show ?case
  proof (cases "str_includes l BOOKMARK_MARKER")
    case True
    with Cons.prems show ?thesis by simp
  next
    case False
    with Cons.prems have "firstLineWithMarker ls (i + 1) = Some n" by simp
    from Cons.IH [OF this]
    have a: "i + 1 \<le> n" and b: "n - (i + 1) < length ls"
      and c: "str_includes (ls ! (n - (i + 1))) BOOKMARK_MARKER"
      and d: "\<forall>j<n - (i + 1). \<not> str_includes (ls ! j) BOOKMARK_MARKER"
      by auto
    from a obtain k where k: "n - i = Suc k" "n - (i + 1) = k" by (cases "n - i") auto
    have "\<forall>j<n - i. \<not> str_includes ((l # ls) ! j) BOOKMARK_MARKER"
    proof (intro allI impI)
      fix j assume "j < n - i"
      then show "\<not> str_includes ((l # ls) ! j) BOOKMARK_MARKER"
        using False d k by (cases j) auto
    qed
    with a b c k show ?thesis by simp
  qed
qed

lemma findBookmark_absent:
  assumes "\<not> str_includes content BOOKMARK_MARKER"
  shows "findBookmark content = \<lparr>hasBookmark = False, lineNumber = None\<rparr>"
proof -
  have "\<forall>l\<in>set (splitLines content). \<not> str_includes l BOOKMARK_MARKER"
    using assms line_includes by blast
  then have "firstLineWithMarker (splitLines content) 0 = None"
    by (rule firstLineWithMarker_None)
  then show ?thesis by (simp add: findBookmark_def)
qed

lemma findBookmark_present:
  assumes "firstLineWithMarker (splitLines content) 0 = Some k"
  shows "findBookmark content = \<lparr>hasBookmark = True, lineNumber = Some k\<rparr>"
    and "k < length (splitLines content)"
  using assms firstLineWithMarker_Some [OF assms] by (simp_all add: findBookmark_def)

lemma remove_absent:
  assumes "\<not> str_includes content BOOKMARK_MARKER"
  shows "toggleBookmark_remove content = content"
    and "toggleBookmark_remove_regex content = content"
  using findBookmark_absent [OF assms]
  by (simp_all add: toggleBookmark_remove_def toggleBookmark_remove_regex_def)

lemma remove_present:
  assumes "firstLineWithMarker (splitLines content) 0 = Some k"
  shows "toggleBookmark_remove content =
           joinWith (eol content) ((splitLines content)[k := removeFromLine (splitLines content ! k)])"
    and "toggleBookmark_remove_regex content =
           joinWith (eol content) ((splitLines content)[k := replaceBefore (splitLines content ! k)])"
  using findBookmark_present [OF assms]
  by (simp_all add: toggleBookmark_remove_def toggleBookmark_remove_regex_def Let_def)

lemma splitLines_no_break: "CHR 0x0A \<notin> set l \<Longrightarrow> splitLines l = [l]"
  by (induction l)
    (auto simp: splitLines_Cons simp del: splitLines.simps(2) dest: list.set_sel(1))

lemma splitLines_append_CRLF:
  "CHR 0x0A \<notin> set l \<Longrightarrow> splitLines (l @ CRLF @ rest) = l # splitLines rest"
proof (induction l)
  case Nil
  then show ?case by (simp add: CRLF_def splitLines_Cons del: splitLines.simps(2))
next
  case (Cons c l)
  then have ih: "splitLines (l @ CRLF @ rest) = l # splitLines rest" by simp
  from Cons.prems have c: "c \<noteq> CHR 0x0A" by auto
  have "hd (l @ CRLF @ rest) \<noteq> CHR 0x0A"
    using Cons.prems by (cases l) (auto simp: CRLF_def)
  with c ih show ?case by (simp add: splitLines_Cons del: splitLines.simps(2))
qed

lemma splitLines_append_LF:
  "CHR 0x0A \<notin> set l \<Longrightarrow> CHR 0x0D \<notin> set l \<Longrightarrow> splitLines (l @ LF @ rest) = l # splitLines rest"
proof (induction l)
  case Nil
  then show ?case by (simp add: LF_def splitLines_Cons del: splitLines.simps(2))
next
  case (Cons c l)
  then have ih: "splitLines (l @ LF @ rest) = l # splitLines rest" by simp
  from Cons.prems have "c \<noteq> CHR 0x0A" "c \<noteq> CHR 0x0D" by auto
  with ih show ?case by (simp add: splitLines_Cons del: splitLines.simps(2))
qed

lemma splitLines_join_CRLF:
  "ls \<noteq> [] \<Longrightarrow> (\<forall>l\<in>set ls. CHR 0x0A \<notin> set l) \<Longrightarrow>
   splitLines (joinWith CRLF ls) = ls"
proof (induction ls)
  case Nil
  then show ?case by simp
next
  case (Cons l ls)
  show ?case
  proof (cases ls)
    case Nil
    with Cons.prems show ?thesis by (simp add: splitLines_no_break)
  next
    case (Cons a as)
    with Cons.IH Cons.prems have "splitLines (joinWith CRLF ls) = ls" by simp
    moreover have "joinWith CRLF (l # ls) = l @ CRLF @ joinWith CRLF ls" using Cons by simp
    ultimately show ?thesis using Cons.prems by (simp add: splitLines_append_CRLF)
  qed
qed

lemma splitLines_join_LF:
  "ls \<noteq> [] \<Longrightarrow> (\<forall>l\<in>set ls. CHR 0x0A \<notin> set l \<and> CHR 0x0D \<notin> set l) \<Longrightarrow>
   splitLines (joinWith LF ls) = ls"
proof (induction ls)
  case Nil
  then show ?case by simp
next
  case (Cons l ls)
  show ?case
  proof (cases ls)
    case Nil
    with Cons.prems show ?thesis by (simp add: splitLines_no_break)
  next
    case (Cons a as)
    with Cons.IH Cons.prems have "splitLines (joinWith LF ls) = ls" by simp
    moreover have "joinWith LF (l # ls) = l @ LF @ joinWith LF ls" using Cons by simp
    ultimately show ?thesis using Cons.prems by (simp add: splitLines_append_LF)
  qed
qed

lemma includes_join_CRLF: "2 \<le> length ls \<Longrightarrow> str_includes (joinWith CRLF ls) CRLF"
proof -
  assume "2 \<le> length ls"
  then obtain a b rest where "ls = a # b # rest"
    by (cases ls; cases "tl ls") auto
  then have "joinWith CRLF ls = a @ CRLF @ joinWith CRLF (b # rest)" by simp
  then show ?thesis unfolding includes_iff by blast
qed

lemma includes_CRLF_has_CR: "str_includes s CRLF \<Longrightarrow> CHR 0x0D \<in> set s"
  by (auto simp: includes_iff CRLF_def)

lemma set_joinWith: "set (joinWith sep ls) \<subseteq> set sep \<union> \<Union> (set ` set ls)"
  by (induction sep ls rule: joinWith.induct) auto

lemma not_includes_join_LF:
  assumes "\<forall>l\<in>set ls. CHR 0x0D \<notin> set l"
  shows "\<not> str_includes (joinWith LF ls) CRLF"
proof
  assume "str_includes (joinWith LF ls) CRLF"
  then have "CHR 0x0D \<in> set (joinWith LF ls)" by (rule includes_CRLF_has_CR)
  with set_joinWith [of LF ls] have "CHR 0x0D \<in> set LF \<union> \<Union> (set ` set ls)" by blast
  with assms show False by (auto simp: LF_def)
qed

lemma joinWith_single: "length ls = 1 \<Longrightarrow> joinWith a ls = joinWith b ls"
proof -
  assume "length ls = 1"
  then obtain x where "ls = [x]" by (cases ls) auto
  then show ?thesis by simp
qed

lemma eol_join_CRLF: "2 \<le> length ls \<Longrightarrow> eol (joinWith CRLF ls) = CRLF"
  by (simp add: eol_def includes_join_CRLF)

lemma eol_join_LF: "\<forall>l\<in>set ls. CHR 0x0D \<notin> set l \<Longrightarrow> eol (joinWith LF ls) = LF"
  by (simp add: eol_def not_includes_join_LF)

lemma rejoin_CRLF:
  assumes "ls \<noteq> []" and "\<forall>l\<in>set ls. CHR 0x0A \<notin> set l \<and> CHR 0x0D \<notin> set l"
    and "length ls' = length ls"
  shows "joinWith (eol (joinWith CRLF ls)) ls' = joinWith CRLF ls'"
proof (cases "2 \<le> length ls")
  case True
  then show ?thesis by (simp add: eol_join_CRLF)
next
  case False
  with assms(1) have "length ls = 1" by (cases ls) (auto simp: not_le)
  with assms(3) show ?thesis by (simp add: joinWith_single)
qed

lemma insert_general:
  "toggleBookmark_insert v content =
     joinWith (eol content) ((splitLines content)[nat (targetLine v (splitLines content)) :=
        insertAtEndOfLine (splitLines content ! nat (targetLine v (splitLines content)))])"
  by (simp add: toggleBookmark_insert_def Let_def)

lemma insert_CRLF_doc:
  assumes "ls \<noteq> []" and "\<forall>l\<in>set ls. CHR 0x0A \<notin> set l \<and> CHR 0x0D \<notin> set l"
  shows "toggleBookmark_insert v (joinWith CRLF ls) =
           joinWith CRLF (ls[nat (targetLine v ls) := insertAtEndOfLine (ls ! nat (targetLine v ls))])"
proof -
  have s: "splitLines (joinWith CRLF ls) = ls" using assms by (simp add: splitLines_join_CRLF)
  show ?thesis unfolding insert_general s
    by (rule rejoin_CRLF [OF assms]) simp
qed

lemma insert_LF_doc:
  assumes "ls \<noteq> []" and "\<forall>l\<in>set ls. CHR 0x0A \<notin> set l \<and> CHR 0x0D \<notin> set l"
  shows "toggleBookmark_insert v (joinWith LF ls) =
           joinWith LF (ls[nat (targetLine v ls) := insertAtEndOfLine (ls ! nat (targetLine v ls))])"
proof -
  have s: "splitLines (joinWith LF ls) = ls" using assms by (simp add: splitLines_join_LF)
  have e: "eol (joinWith LF ls) = LF" using assms by (simp add: eol_join_LF)
  show ?thesis unfolding insert_general s e ..
qed

lemma remove_CRLF_doc:
  assumes "ls \<noteq> []" and "\<forall>l\<in>set ls. CHR 0x0A \<notin> set l \<and> CHR 0x0D \<notin> set l"
    and "firstLineWithMarker ls 0 = Some k"
  shows "toggleBookmark_remove (joinWith CRLF ls) = joinWith CRLF (ls[k := removeFromLine (ls ! k)])"
    and "toggleBookmark_remove_regex (joinWith CRLF ls) = joinWith CRLF (ls[k := replaceBefore (ls ! k)])"
proof -
  have s: "splitLines (joinWith CRLF ls) = ls" using assms by (simp add: splitLines_join_CRLF)
  with assms(3) have f: "firstLineWithMarker (splitLines (joinWith CRLF ls)) 0 = Some k" by simp
  show "toggleBookmark_remove (joinWith CRLF ls) = joinWith CRLF (ls[k := removeFromLine (ls ! k)])"
    unfolding remove_present(1) [OF f] s by (rule rejoin_CRLF [OF assms(1,2)]) simp
  show "toggleBookmark_remove_regex (joinWith CRLF ls) = joinWith CRLF (ls[k := replaceBefore (ls ! k)])"
    unfolding remove_present(2) [OF f] s by (rule rejoin_CRLF [OF assms(1,2)]) simp
qed

lemma remove_LF_doc:
  assumes "ls \<noteq> []" and "\<forall>l\<in>set ls. CHR 0x0A \<notin> set l \<and> CHR 0x0D \<notin> set l"
    and "firstLineWithMarker ls 0 = Some k"
  shows "toggleBookmark_remove (joinWith LF ls) = joinWith LF (ls[k := removeFromLine (ls ! k)])"
    and "toggleBookmark_remove_regex (joinWith LF ls) = joinWith LF (ls[k := replaceBefore (ls ! k)])"
proof -
  have s: "splitLines (joinWith LF ls) = ls" using assms by (simp add: splitLines_join_LF)
  have e: "eol (joinWith LF ls) = LF" using assms by (simp add: eol_join_LF)
  from s assms(3) have f: "firstLineWithMarker (splitLines (joinWith LF ls)) 0 = Some k" by simp
  show "toggleBookmark_remove (joinWith LF ls) = joinWith LF (ls[k := removeFromLine (ls ! k)])"
    unfolding remove_present(1) [OF f] s e ..
  show "toggleBookmark_remove_regex (joinWith LF ls) = joinWith LF (ls[k := replaceBefore (ls ! k)])"
    unfolding remove_present(2) [OF f] s e ..
qed

lemma remove_none:
  assumes "firstLineWithMarker (splitLines content) 0 = None"
  shows "toggleBookmark_remove content = content"
    and "toggleBookmark_remove_regex content = content"
  using assms
  by (simp_all add: toggleBookmark_remove_def toggleBookmark_remove_regex_def findBookmark_def)

lemma remove_general:
  "toggleBookmark_remove content = content \<or>
   (\<exists>k<length (splitLines content). toggleBookmark_remove content =
      joinWith (eol content) ((splitLines content)[k := removeFromLine (splitLines content ! k)]))"
proof (cases "firstLineWithMarker (splitLines content) 0")
  case None
  then show ?thesis by (simp add: remove_none)
next
  case (Some k)
  from findBookmark_present(2) [OF Some] remove_present(1) [OF Some] show ?thesis by blast
qed

lemma remove_regex_general:
  "toggleBookmark_remove_regex content = content \<or>
   (\<exists>k<length (splitLines content). toggleBookmark_remove_regex content =
      joinWith (eol content) ((splitLines content)[k := replaceBefore (splitLines content ! k)]))"
proof (cases "firstLineWithMarker (splitLines content) 0")
  case None
  then show ?thesis by (simp add: remove_none)
next
  case (Some k)
  from findBookmark_present(2) [OF Some] remove_present(2) [OF Some] show ?thesis by blast
qed

lemma remove_unmarked_doc:
  assumes "ls \<noteq> []" and "\<forall>l\<in>set ls. CHR 0x0A \<notin> set l \<and> CHR 0x0D \<notin> set l"
    and "firstLineWithMarker ls 0 = None"
  shows "toggleBookmark_remove (joinWith CRLF ls) = joinWith CRLF ls"
    and "toggleBookmark_remove_regex (joinWith CRLF ls) = joinWith CRLF ls"
    and "toggleBookmark_remove (joinWith LF ls) = joinWith LF ls"
    and "toggleBookmark_remove_regex (joinWith LF ls) = joinWith LF ls"
proof -
  have c: "firstLineWithMarker (splitLines (joinWith CRLF ls)) 0 = None"
    using assms by (simp add: splitLines_join_CRLF)
  have l: "firstLineWithMarker (splitLines (joinWith LF ls)) 0 = None"
    using assms by (simp add: splitLines_join_LF)
  show "toggleBookmark_remove (joinWith CRLF ls) = joinWith CRLF ls"
    and "toggleBookmark_remove_regex (joinWith CRLF ls) = joinWith CRLF ls"
    using remove_none [OF c] by simp_all
  show "toggleBookmark_remove (joinWith LF ls) = joinWith LF ls"
    and "toggleBookmark_remove_regex (joinWith LF ls) = joinWith LF ls"
    using remove_none [OF l] by simp_all
qed

section \<open>Facts about the decorations\<close>

lemma indexOfFrom_absent: "\<not> str_includes s sub \<Longrightarrow> indexOfFrom s sub i = -1"
  by (induction s arbitrary: i) auto

lemma indexOfFrom_first:
  "str_includes s sub \<Longrightarrow>
   \<exists>p. indexOfFrom s sub i = int (i + p) \<and> prefix sub (drop p s) \<and> (\<forall>q<p. \<not> prefix sub (drop q s))"
proof (induction s arbitrary: i)
  case Nil
  then show ?case by simp
next
  case (Cons c cs)
  show ?case
  proof (cases "prefix sub (c # cs)")
    case True
    then have "indexOfFrom (c # cs) sub i = int (i + 0) \<and> prefix sub (drop 0 (c # cs)) \<and>
      (\<forall>q<0. \<not> prefix sub (drop q (c # cs)))" by simp
    then show ?thesis by blast
  next
    case False
    with Cons.prems have "str_includes cs sub" by simp
    from Cons.IH [OF this, of "i + 1"] obtain p where
      p: "indexOfFrom cs sub (i + 1) = int (i + 1 + p)" "prefix sub (drop p cs)"
         "\<forall>q<p. \<not> prefix sub (drop q cs)" by blast
    have "\<forall>q<Suc p. \<not> prefix sub (drop q (c # cs))"
    proof (intro allI impI)
      fix q assume "q < Suc p"
      then show "\<not> prefix sub (drop q (c # cs))"
        using False p(3) by (cases q) auto
    qed
    with False p have "indexOfFrom (c # cs) sub i = int (i + Suc p) \<and>
      prefix sub (drop (Suc p) (c # cs)) \<and> (\<forall>q<Suc p. \<not> prefix sub (drop q (c # cs)))"
      by simp
    then show ?thesis by blast
  qed
qed

lemma indexOf_first:
  assumes "str_includes s sub"
  shows "0 \<le> indexOf s sub" and "prefix sub (drop (nat (indexOf s sub)) s)"
    and "\<forall>q<nat (indexOf s sub). \<not> prefix sub (drop q s)"
proof -
  from indexOfFrom_first [OF assms, of 0] obtain p where
    p: "indexOfFrom s sub 0 = int p" "prefix sub (drop p s)" "\<forall>q<p. \<not> prefix sub (drop q s)"
    by auto
  then show "0 \<le> indexOf s sub" and "prefix sub (drop (nat (indexOf s sub)) s)"
    and "\<forall>q<nat (indexOf s sub). \<not> prefix sub (drop q s)"
    by (simp_all add: indexOf_def)
qed

lemma decorateLine_marked:
  assumes "str_includes lineContent BOOKMARK_MARKER" and "index < length (splitLF content)"
  shows "decorateLine content lineContent index =
    [Range (lineFrom (splitLF content) index) (lineFrom (splitLF content) index)
       (LineDecoration ''cm-bookmark-line''),
     Range (lineFrom (splitLF content) index + nat (indexOf lineContent BOOKMARK_MARKER))
       (lineFrom (splitLF content) index + nat (indexOf lineContent BOOKMARK_MARKER)
          + length BOOKMARK_MARKER)
       (MarkDecoration ''cm-bookmark-marker-hidden'')]"
proof -
  from indexOf_first(1) [OF assms(1)] have "indexOf lineContent BOOKMARK_MARKER \<noteq> -1" by simp
  with assms show ?thesis by (simp add: decorateLine_def doc_line_def Let_def)
qed

lemma decorateLine_unmarked:
  "\<not> str_includes lineContent BOOKMARK_MARKER \<Longrightarrow> decorateLine content lineContent index = []"
  by (simp add: decorateLine_def)

lemma forEachLine_concat:
  "forEachLine content ls index =
   concat (map (\<lambda>j. decorateLine content (ls ! j) (index + j)) [0..<length ls])"
proof (induction ls arbitrary: index)
  case Nil
  then show ?case by simp
next
  case (Cons l ls)
  have "[0..<length (l # ls)] = 0 # map Suc [0..<length ls]"
    by (simp add: upt_conv_Cons map_Suc_upt del: upt_Suc)
  then show ?case using Cons.IH [of "index + 1"] by (simp add: comp_def)
qed

lemma concat_map_filter:
  "concat (map (\<lambda>i. if P i then f i else []) xs) = concat (map f (filter P xs))"
  by (induction xs) auto


lemma buildDecorations_marked_lines:
  "buildDecorations content =
   concat (map (\<lambda>i.
       [Range (lineFrom (splitLF content) i) (lineFrom (splitLF content) i)
          (LineDecoration ''cm-bookmark-line''),
        Range (lineFrom (splitLF content) i + nat (indexOf (splitLF content ! i) BOOKMARK_MARKER))
          (lineFrom (splitLF content) i + nat (indexOf (splitLF content ! i) BOOKMARK_MARKER)
             + length BOOKMARK_MARKER)
          (MarkDecoration ''cm-bookmark-marker-hidden'')])
     (filter (\<lambda>i. str_includes (splitLF content ! i) BOOKMARK_MARKER)
        [0..<length (splitLF content)]))"
proof -
  let ?ls = "splitLF content"
  let ?two = "\<lambda>i.
       [Range (lineFrom ?ls i) (lineFrom ?ls i) (LineDecoration ''cm-bookmark-line''),
        Range (lineFrom ?ls i + nat (indexOf (?ls ! i) BOOKMARK_MARKER))
          (lineFrom ?ls i + nat (indexOf (?ls ! i) BOOKMARK_MARKER) + length BOOKMARK_MARKER)
          (MarkDecoration ''cm-bookmark-marker-hidden'')]"
  have "map (\<lambda>j. decorateLine content (?ls ! j) (0 + j)) [0..<length ?ls] =
        map (\<lambda>i. if str_includes (?ls ! i) BOOKMARK_MARKER then ?two i else []) [0..<length ?ls]"
  proof (rule map_cong [OF refl])
    fix j assume "j \<in> set [0..<length ?ls]"
    then have j: "j < length ?ls" by simp
    show "decorateLine content (?ls ! j) (0 + j) =
          (if str_includes (?ls ! j) BOOKMARK_MARKER then ?two j else [])"
      using j by (simp add: decorateLine_marked decorateLine_unmarked)
  qed
  then have "buildDecorations content =
      concat (map (\<lambda>i. if str_includes (?ls ! i) BOOKMARK_MARKER then ?two i else [])
        [0..<length ?ls])"
    by (simp only: buildDecorations_def forEachLine_concat)
  then show ?thesis by (simp only: concat_map_filter)
qed

lemma splitLF_nonempty: "splitLF s \<noteq> []"
  by (induction s) (auto split: list.splits)

lemma joinWith_Cons: "ls \<noteq> [] \<Longrightarrow> joinWith sep (l # ls) = l @ sep @ joinWith sep ls"
  by (cases ls) auto

lemma joinWith_Cons_char: "joinWith sep ((c # l) # ls) = c # joinWith sep (l # ls)"
  by (cases ls) auto

lemma join_splitLF: "joinWith LF (splitLF s) = s"
proof (induction s)
  case Nil
  then show ?case by simp
next
  case (Cons c cs)
  show ?case
  proof (cases "c = CHR 0x0A")
    case True
    then show ?thesis using Cons.IH by (simp add: joinWith_Cons splitLF_nonempty LF_def)
  next
    case False
    obtain l ls where e: "splitLF cs = l # ls" using splitLF_nonempty [of cs] by (cases "splitLF cs") auto
    with False Cons.IH show ?thesis by (simp add: joinWith_Cons_char)
  qed
qed

lemma drop_lineFrom:
  "i < length ls \<Longrightarrow> \<exists>rest. drop (lineFrom ls i) (joinWith LF ls) = ls ! i @ rest"
proof (induction ls arbitrary: i)
  case Nil
  then show ?case by simp
next
  case (Cons l ls)
  show ?case
  proof (cases i)
    case 0
    show ?thesis
    proof (cases "ls = []")
      case True
      with 0 show ?thesis by simp
    next
      case False
      with 0 show ?thesis by (simp add: joinWith_Cons)
    qed
  next
    case (Suc j)
    with Cons.prems have j: "j < length ls" by simp
    then have ne: "ls \<noteq> []" by auto
    from Cons.IH [OF j] obtain rest where "drop (lineFrom ls j) (joinWith LF ls) = ls ! j @ rest"
      by blast
    with Suc ne show ?thesis by (simp add: joinWith_Cons LF_def)
  qed
qed

lemma mark_covers_marker:
  assumes "i < length (splitLF content)" and "str_includes (splitLF content ! i) BOOKMARK_MARKER"
  shows "take (length BOOKMARK_MARKER)
           (drop (lineFrom (splitLF content) i + nat (indexOf (splitLF content ! i) BOOKMARK_MARKER))
              content) = BOOKMARK_MARKER"
proof -
  let ?l = "splitLF content ! i"
  let ?p = "nat (indexOf ?l BOOKMARK_MARKER)"
  from drop_lineFrom [OF assms(1)] obtain rest where
    "drop (lineFrom (splitLF content) i) (joinWith LF (splitLF content)) = ?l @ rest" by blast
  then have d: "drop (lineFrom (splitLF content) i) content = ?l @ rest"
    by (simp add: join_splitLF)
  from indexOf_first(2) [OF assms(2)] obtain zs where z: "drop ?p ?l = BOOKMARK_MARKER @ zs"
    by (auto simp: prefix_def)
  then have "drop ?p ?l \<noteq> []" by (simp add: BOOKMARK_MARKER_def)
  then have "?p \<le> length ?l" by simp
  have "drop (lineFrom (splitLF content) i + ?p) content = drop ?p (?l @ rest)"
    using d by (simp add: add.commute [of _ ?p] drop_drop [symmetric] del: drop_drop)
  also have "\<dots> = BOOKMARK_MARKER @ zs @ rest"
    using \<open>?p \<le> length ?l\<close> z by simp
  finally show ?thesis by simp
qed

text \<open>
  The builder of the editor accepts ranges only in ascending order of their start. The
  ranges are added in that order, so no call of \<^verbatim>\<open>builder.add\<close> raises.
\<close>

lemma lineFrom_Suc:
  "Suc i < length ls \<Longrightarrow> lineFrom ls (Suc i) = lineFrom ls i + length (ls ! i) + 1"
proof (induction ls arbitrary: i)
  case Nil
  then show ?case by simp
next
  case (Cons l ls)
  then show ?case by (cases i) auto
qed

lemma lineFrom_later:
  "i < j \<Longrightarrow> j < length ls \<Longrightarrow> lineFrom ls i + length (ls ! i) < lineFrom ls j"
proof (induction j)
  case 0
  then show ?case by simp
next
  case (Suc j)
  have s: "lineFrom ls (Suc j) = lineFrom ls j + length (ls ! j) + 1"
    using Suc.prems(2) by (rule lineFrom_Suc)
  show ?case
  proof (cases "i = j")
    case True
    with s show ?thesis by simp
  next
    case False
    with Suc.prems have "i < j" "j < length ls" by simp_all
    then have "lineFrom ls i + length (ls ! i) < lineFrom ls j" by (rule Suc.IH)
    with s show ?thesis by simp
  qed
qed

lemma indexOf_within:
  assumes "str_includes l BOOKMARK_MARKER"
  shows "nat (indexOf l BOOKMARK_MARKER) \<le> length l"
proof -
  from indexOf_first(2) [OF assms]
  have "drop (nat (indexOf l BOOKMARK_MARKER)) l \<noteq> []"
    by (auto simp: prefix_def BOOKMARK_MARKER_def)
  then show ?thesis by simp
qed

lemma decorateLine_froms:
  assumes "i < length (splitLF content)" and "r \<in> set (decorateLine content (splitLF content ! i) i)"
  shows "lineFrom (splitLF content) i \<le> rangeFrom r"
    and "rangeFrom r \<le> lineFrom (splitLF content) i + length (splitLF content ! i)"
proof -
  from assms(2) have m: "str_includes (splitLF content ! i) BOOKMARK_MARKER"
    using decorateLine_unmarked by fastforce
  from assms(2) decorateLine_marked [OF m assms(1)] indexOf_within [OF m]
  show "lineFrom (splitLF content) i \<le> rangeFrom r"
    and "rangeFrom r \<le> lineFrom (splitLF content) i + length (splitLF content ! i)"
    by auto
qed

lemma decorateLine_sorted:
  "sorted (map rangeFrom (decorateLine content lineContent index))"
  by (auto simp: decorateLine_def Let_def split: option.splits)

lemma sorted_concat_map:
  assumes "\<And>x. x \<in> set xs \<Longrightarrow> sorted (f x)"
    and "\<And>i j. i < j \<Longrightarrow> j < length xs \<Longrightarrow> \<forall>a\<in>set (f (xs ! i)). \<forall>b\<in>set (f (xs ! j)). a \<le> b"
  shows "sorted (concat (map f xs) :: nat list)"
  using assms
proof (induction xs)
  case Nil
  then show ?case by simp
next
  case (Cons x xs)
  have "sorted (concat (map f xs))"
  proof (rule Cons.IH)
    fix y assume "y \<in> set xs"
    then show "sorted (f y)" using Cons.prems(1) by simp
  next
    fix i j assume "i < j" "j < length xs"
    then show "\<forall>a\<in>set (f (xs ! i)). \<forall>b\<in>set (f (xs ! j)). a \<le> b"
      using Cons.prems(2) [of "Suc i" "Suc j"] by simp
  qed
  moreover have "sorted (f x)" using Cons.prems(1) by simp
  moreover have "\<forall>a\<in>set (f x). \<forall>b\<in>set (concat (map f xs)). a \<le> b"
  proof (intro ballI)
    fix a b assume a: "a \<in> set (f x)" and "b \<in> set (concat (map f xs))"
    then obtain y where "y \<in> set xs" "b \<in> set (f y)" by auto
    then obtain j where "j < length xs" "xs ! j = y" by (auto simp: in_set_conv_nth)
    with Cons.prems(2) [of 0 "Suc j"] a \<open>b \<in> set (f y)\<close> show "a \<le> b" by auto
  qed
  ultimately show ?case by (simp add: sorted_append)
qed

lemma buildDecorations_ascending:
  "sorted (map rangeFrom (buildDecorations content))"
proof -
  let ?ls = "splitLF content"
  let ?f = "\<lambda>j. map rangeFrom (decorateLine content (?ls ! j) j)"
  have "map rangeFrom (buildDecorations content) = concat (map ?f [0..<length ?ls])"
    by (simp add: buildDecorations_def forEachLine_concat map_concat comp_def)
  moreover have "sorted (concat (map ?f [0..<length ?ls]))"
  proof (rule sorted_concat_map)
    fix x show "sorted (?f x)" by (rule decorateLine_sorted)
  next
    fix i j assume ij: "i < j" and j: "j < length [0..<length ?ls]"
    then have jl: "j < length ?ls" and il: "i < length ?ls" by simp_all
    show "\<forall>a\<in>set (?f ([0..<length ?ls] ! i)). \<forall>b\<in>set (?f ([0..<length ?ls] ! j)). a \<le> b"
    proof (intro ballI)
      fix a b
      assume "a \<in> set (?f ([0..<length ?ls] ! i))" and "b \<in> set (?f ([0..<length ?ls] ! j))"
      with il jl obtain r s where r: "r \<in> set (decorateLine content (?ls ! i) i)" "a = rangeFrom r"
        and s: "s \<in> set (decorateLine content (?ls ! j) j)" "b = rangeFrom s"
        by auto
      from decorateLine_froms(2) [OF il r(1)] decorateLine_froms(1) [OF jl s(1)]
        lineFrom_later [OF ij jl] r(2) s(2)
      show "a \<le> b" by simp
    qed
  qed
  ultimately show ?thesis by simp
qed

section \<open>Facts about the fence rule\<close>

lemma fenceCount_0: "0 < length lines \<Longrightarrow>
  fenceCount lines 0 = (if isFenceDelimiter (lines ! 0) then 1 else 0)"
  by (cases lines) (auto simp: fenceCount_def)

lemma fenceCount_Suc: "Suc k < length lines \<Longrightarrow>
  fenceCount lines (Suc k) = fenceCount lines k + (if isFenceDelimiter (lines ! Suc k) then 1 else 0)"
  by (simp add: fenceCount_def take_Suc_conv_app_nth [of "Suc k"])

lemma walkBack_Some:
  "walkBack lines k = Some i \<Longrightarrow>
   i \<le> k \<and> opensFence lines i \<and> (\<forall>j. i < j \<and> j \<le> k \<longrightarrow> \<not> opensFence lines j)"
proof (induction k)
  case 0
  then show ?case by (auto split: if_splits)
next
  case (Suc k)
  show ?case
  proof (cases "opensFence lines (Suc k)")
    case True
    with Suc.prems show ?thesis by auto
  next
    case False
    with Suc.prems have "walkBack lines k = Some i" by simp
    from Suc.IH [OF this] have a: "i \<le> k" "opensFence lines i"
      "\<forall>j. i < j \<and> j \<le> k \<longrightarrow> \<not> opensFence lines j" by auto
    have "\<forall>j. i < j \<and> j \<le> Suc k \<longrightarrow> \<not> opensFence lines j"
    proof (intro allI impI)
      fix j assume "i < j \<and> j \<le> Suc k"
      then show "\<not> opensFence lines j" using a(3) False by (cases "j = Suc k") auto
    qed
    with a show ?thesis by simp
  qed
qed

lemma walkBack_exists:
  "k < length lines \<Longrightarrow> 0 < fenceCount lines k \<Longrightarrow> \<exists>i. walkBack lines k = Some i"
proof (induction k)
  case 0
  then show ?case by (auto simp: fenceCount_0 opensFence_def insideFence_def split: if_splits)
next
  case (Suc k)
  show ?case
  proof (cases "opensFence lines (Suc k)")
    case True
    then show ?thesis by simp
  next
    case False
    have "0 < fenceCount lines k"
    proof (cases "isFenceDelimiter (lines ! Suc k)")
      case True
      with False have "even (fenceCount lines (Suc k))" by (simp add: opensFence_def insideFence_def)
      moreover have "fenceCount lines (Suc k) = fenceCount lines k + 1"
        using True Suc.prems(1) by (simp add: fenceCount_Suc)
      ultimately show ?thesis by (cases "fenceCount lines k") auto
    next
      case False
      then have "fenceCount lines (Suc k) = fenceCount lines k"
        using Suc.prems(1) by (simp add: fenceCount_Suc)
      with Suc.prems(2) show ?thesis by simp
    qed
    moreover have "k < length lines" using Suc.prems(1) by simp
    ultimately have "\<exists>i. walkBack lines k = Some i" by (rule Suc.IH [rotated])
    with False show ?thesis by simp
  qed
qed

lemma fence_candidate_count:
  assumes "k < length lines" and "isFenceDelimiter (lines ! k) \<or> insideFence lines k"
  shows "0 < fenceCount lines k"
proof (cases "insideFence lines k")
  case True
  then show ?thesis by (cases "fenceCount lines k") (auto simp: insideFence_def)
next
  case False
  with assms(2) have f: "isFenceDelimiter (lines ! k)" by simp
  show ?thesis
  proof (cases k)
    case 0
    with assms(1) f show ?thesis by (simp add: fenceCount_0)
  next
    case (Suc j)
    with assms(1) f show ?thesis by (simp add: fenceCount_Suc)
  qed
qed

lemma before_opening_outside:
  assumes "opensFence lines i" and "0 < i" and "i < length lines"
  shows "\<not> insideFence lines (i - 1)"
proof -
  from assms(2) obtain j where j: "i = Suc j" by (cases i) auto
  with assms(1,3) have "odd (fenceCount lines j + 1)"
    by (simp add: opensFence_def insideFence_def fenceCount_Suc)
  then show ?thesis using j by (simp add: insideFence_def)
qed

section \<open>Facts about the earlier revision\<close>

text \<open>
  The earlier revision left a candidate inside the header where it was, appended a
  second marker to a marked line, and put the marker behind the carriage return of a
  CRLF-terminated line.
\<close>

lemma earlier_revision_stays_in_header:
  "targetLine_earlier 1 [''---'', ''title: x'', ''---'', ''body''] = 1"
  by (simp add: targetLine_earlier_def frontmatterEndIndex_def)

lemma earlier_revision_appends_twice:
  "toggleBookmark_insert_earlier 0 (toggleBookmark_insert_earlier 0 ''a'') =
   ''a <!-- bookmark-marker --> <!-- bookmark-marker -->''"
  by (simp add: toggleBookmark_insert_earlier_def targetLine_earlier_def frontmatterEndIndex_def
      BOOKMARK_MARKER_def)

lemma earlier_revision_splits_line_ending:
  "toggleBookmark_insert_earlier 0 (''a'' @ CRLF @ ''b'') =
   ''a'' @ [CHR 0x0D] @ '' <!-- bookmark-marker -->'' @ LF @ ''b''"
  by (simp add: toggleBookmark_insert_earlier_def targetLine_earlier_def frontmatterEndIndex_def
      BOOKMARK_MARKER_def CRLF_def LF_def)

section \<open>Claims\<close>

text \<open>
  C1. Rendered-mode unit disambiguation: a scroll value of at most 100 is taken as a
  percentage (fraction \<open>scroll / 100\<close>), a larger one as a pixel offset (fraction
  \<open>scroll / scrollHeight\<close>); the line returned is the floor of fraction times line
  count, clamped to the valid indices. Quotient and product are those of the host
  language, each rounded to the number format, so that 29 percent of 100 lines is line
  28. The sample with scroll 50 and the sample with scroll 500, both with content
  extent 1000 and 100 lines, give line 50.
\<close>

theorem C1_unit_disambiguation:
  "(previewMode_getScroll view = Some scroll \<and> editor_lineCount view = Some n \<and>
    number_le scroll (Finite 100) \<longrightarrow>
      scrollPercentage view = Some (divide_num scroll (Finite 100)) \<and>
      getVisibleLineInPreview view =
        Normal (clampLine (times_num (divide_num scroll (Finite 100)) (Finite (of_int n))) n)) \<and>
   (previewMode_getScroll view = Some scroll \<and> editor_lineCount view = Some n \<and>
    number_less (Finite 100) scroll \<and> containerEl_scrollHeight view = Some scrollHeight \<longrightarrow>
      scrollPercentage view = Some (divide_num scroll scrollHeight) \<and>
      getVisibleLineInPreview view =
        Normal (clampLine (times_num (divide_num scroll scrollHeight) (Finite (of_int n))) n)) \<and>
   getVisibleLineInPreview \<lparr>previewMode_getScroll = Some (Finite 50),
      containerEl_scrollHeight = Some (Finite 1000), editor_lineCount = Some 100\<rparr>
     = Normal (Finite 50) \<and>
   getVisibleLineInPreview \<lparr>previewMode_getScroll = Some (Finite 500),
      containerEl_scrollHeight = Some (Finite 1000), editor_lineCount = Some 100\<rparr>
     = Normal (Finite 50)"
proof -
  have percent: "previewMode_getScroll view = Some scroll \<and> editor_lineCount view = Some n \<and>
    number_le scroll (Finite 100) \<longrightarrow>
      scrollPercentage view = Some (divide_num scroll (Finite 100)) \<and>
      getVisibleLineInPreview view =
        Normal (clampLine (times_num (divide_num scroll (Finite 100)) (Finite (of_int n))) n)"
  proof (intro impI conjI)
    assume a: "previewMode_getScroll view = Some scroll \<and> editor_lineCount view = Some n \<and>
      number_le scroll (Finite 100)"
    then show p: "scrollPercentage view = Some (divide_num scroll (Finite 100))"
      by (simp add: scrollPercentage_def)
    from a result_by_fraction [OF p, of n]
    show "getVisibleLineInPreview view =
        Normal (clampLine (times_num (divide_num scroll (Finite 100)) (Finite (of_int n))) n)"
      by simp
  qed
  have pixels: "previewMode_getScroll view = Some scroll \<and> editor_lineCount view = Some n \<and>
    number_less (Finite 100) scroll \<and> containerEl_scrollHeight view = Some scrollHeight \<longrightarrow>
      scrollPercentage view = Some (divide_num scroll scrollHeight) \<and>
      getVisibleLineInPreview view =
        Normal (clampLine (times_num (divide_num scroll scrollHeight) (Finite (of_int n))) n)"
  proof (intro impI conjI)
    assume a: "previewMode_getScroll view = Some scroll \<and> editor_lineCount view = Some n \<and>
      number_less (Finite 100) scroll \<and> containerEl_scrollHeight view = Some scrollHeight"
    then have "\<not> number_le scroll (Finite 100)" by (simp add: number_le_def)
    with a show p: "scrollPercentage view = Some (divide_num scroll scrollHeight)"
      by (simp add: scrollPercentage_def)
    from a result_by_fraction [OF p, of n]
    show "getVisibleLineInPreview view =
        Normal (clampLine (times_num (divide_num scroll scrollHeight) (Finite (of_int n))) n)"
      by simp
  qed
  have s50: "getVisibleLineInPreview \<lparr>previewMode_getScroll = Some (Finite 50),
      containerEl_scrollHeight = Some (Finite 1000), editor_lineCount = Some 100\<rparr>
     = Normal (Finite 50)"
    by code_simp
  have s500: "getVisibleLineInPreview \<lparr>previewMode_getScroll = Some (Finite 500),
      containerEl_scrollHeight = Some (Finite 1000), editor_lineCount = Some 100\<rparr>
     = Normal (Finite 50)"
    by code_simp
  show ?thesis by (rule conjI [OF percent conjI [OF pixels conjI [OF s50 s500]]])
qed

theorem C1_unit_disambiguation_witness:
  "getVisibleLineInPreview \<lparr>previewMode_getScroll = Some (Finite 29),
      containerEl_scrollHeight = Some (Finite 0), editor_lineCount = Some 100\<rparr>
     = Normal (Finite 28) \<and>
   getVisibleLineInPreview \<lparr>previewMode_getScroll = Some (Finite 300),
      containerEl_scrollHeight = Some (Finite 400), editor_lineCount = Some 10\<rparr>
     = Normal (Finite 7)"
proof -
  have a: "clampLine (times_num (divide_num (Finite 29) (Finite 100)) (Finite (of_int 100))) 100
           = Finite 28"
    by code_simp
  have b: "clampLine (times_num (divide_num (Finite 300) (Finite 400)) (Finite (of_int 10))) 10
           = Finite 7"
    by code_simp
  have le: "number_le (Finite 29) (Finite 100)" by (simp add: number_le_def)
  have gt: "number_less (Finite 100) (Finite 300)" by simp
  from le C1_unit_disambiguation [of "\<lparr>previewMode_getScroll = Some (Finite 29),
      containerEl_scrollHeight = Some (Finite 0), editor_lineCount = Some 100\<rparr>"
      "Finite 29" 100, THEN conjunct1]
  have "getVisibleLineInPreview \<lparr>previewMode_getScroll = Some (Finite 29),
      containerEl_scrollHeight = Some (Finite 0), editor_lineCount = Some 100\<rparr>
     = Normal (clampLine (times_num (divide_num (Finite 29) (Finite 100)) (Finite (of_int 100))) 100)"
    by simp
  then have x: "getVisibleLineInPreview \<lparr>previewMode_getScroll = Some (Finite 29),
      containerEl_scrollHeight = Some (Finite 0), editor_lineCount = Some 100\<rparr>
     = Normal (Finite 28)"
    unfolding a .
  from gt C1_unit_disambiguation [of "\<lparr>previewMode_getScroll = Some (Finite 300),
      containerEl_scrollHeight = Some (Finite 400), editor_lineCount = Some 10\<rparr>"
      "Finite 300" 10 "Finite 400", THEN conjunct2, THEN conjunct1]
  have "getVisibleLineInPreview \<lparr>previewMode_getScroll = Some (Finite 300),
      containerEl_scrollHeight = Some (Finite 400), editor_lineCount = Some 10\<rparr>
     = Normal (clampLine (times_num (divide_num (Finite 300) (Finite 400)) (Finite (of_int 10))) 10)"
    by simp
  then have y: "getVisibleLineInPreview \<lparr>previewMode_getScroll = Some (Finite 300),
      containerEl_scrollHeight = Some (Finite 400), editor_lineCount = Some 10\<rparr>
     = Normal (Finite 7)"
    unfolding b .
  from x y show ?thesis by (rule conjI)
qed




text \<open>
  C3. Metadata-header avoidance: when the first line of the document is \<open>---\<close>, the
  first later line equal to \<open>---\<close> has index \<open>e\<close>, and the candidate line lies
  between 0 and \<open>e\<close>, the insertion target is line \<open>e + 1\<close>, clamped to the last line
  index. For the document \<open>---\<close>, \<open>title: x\<close>, \<open>---\<close>, \<open>body\<close> and candidate
  line 1 the target is line 3.
\<close>

theorem C3_header_avoidance:
  "(lines \<noteq> [] \<and> lines ! 0 = ''---'' \<and> 0 < e \<and> e < length lines \<and> lines ! e = ''---'' \<and>
    (\<forall>j. 0 < j \<and> j < e \<longrightarrow> lines ! j \<noteq> ''---'') \<and> 0 \<le> candidate \<and> candidate \<le> int e \<longrightarrow>
      targetLine candidate lines = min (int e + 1) (int (length lines) - 1)) \<and>
   targetLine 1 [''---'', ''title: x'', ''---'', ''body''] = 3"
proof (intro conjI impI)
  assume a: "lines \<noteq> [] \<and> lines ! 0 = ''---'' \<and> 0 < e \<and> e < length lines \<and> lines ! e = ''---'' \<and>
    (\<forall>j. 0 < j \<and> j < e \<longrightarrow> lines ! j \<noteq> ''---'') \<and> 0 \<le> candidate \<and> candidate \<le> int e"
  then have f: "frontmatterEndIndex lines = int e"
    by (intro frontmatterEndIndex_closing) simp_all
  from a have "min candidate (int (length lines) - 1) = candidate" by simp
  with f a show "targetLine candidate lines = min (int e + 1) (int (length lines) - 1)"
    by (simp add: targetLine_def Let_def)
next
  show "targetLine 1 [''---'', ''title: x'', ''---'', ''body''] = 3"
    by (simp add: targetLine_def frontmatterEndIndex_def)
qed

theorem C3_header_avoidance_witness:
  "targetLine 0 [''---'', ''a: 1'', ''b: 2'', ''---''] = 3 \<and>
   targetLine 2 [''---'', ''a: 1'', ''b: 2'', ''---'', ''text'', ''more''] = 4 \<and>
   toggleBookmark_insert 1 ''---\<newline>title: x\<newline>---\<newline>body'' =
     ''---\<newline>title: x\<newline>---\<newline>body <!-- bookmark-marker -->''"
proof -
  have "targetLine 0 [''---'', ''a: 1'', ''b: 2'', ''---''] = 3"
    using C3_header_avoidance [of "[''---'', ''a: 1'', ''b: 2'', ''---'']" 3 0]
    by (simp add: nth_Cons')
  moreover have "targetLine 2 [''---'', ''a: 1'', ''b: 2'', ''---'', ''text'', ''more''] = 4"
    using C3_header_avoidance [of "[''---'', ''a: 1'', ''b: 2'', ''---'', ''text'', ''more'']" 3 2]
    by (simp add: nth_Cons')
  moreover have "toggleBookmark_insert 1 ''---\<newline>title: x\<newline>---\<newline>body'' =
     ''---\<newline>title: x\<newline>---\<newline>body <!-- bookmark-marker -->''"
    by (simp add: toggleBookmark_insert_def targetLine_def frontmatterEndIndex_def eol_def
        CRLF_def LF_def insertAtEndOfLine_def BOOKMARK_MARKER_def)
  ultimately show ?thesis by simp
qed

text \<open>
  C4. Fenced-block avoidance, on the placement policy modelled from the specification:
  when the candidate line (after header avoidance) is line \<open>k\<close> of the document and is
  a fence-delimiter line or lies inside a fence, the walk backward finds the nearest
  opening fence-delimiter line, at some index \<open>i\<close> not after \<open>k\<close>; when \<open>i > 0\<close> the
  resolved target is \<open>i - 1\<close>, and that line is not inside a fence. For the document
  \<open>a\<close>, \<open>```\<close>, \<open>code\<close>, \<open>```\<close>, \<open>b\<close> and candidate line 2 the target is line 0.
\<close>

theorem C4_fence_avoidance:
  "(headerAvoidance lines candidate = int k \<and> k < length lines \<and>
    (isFenceDelimiter (lines ! k) \<or> insideFence lines k) \<longrightarrow>
      (\<exists>i\<le>k. walkBack lines k = Some i \<and> opensFence lines i \<and>
         (\<forall>j. i < j \<and> j \<le> k \<longrightarrow> \<not> opensFence lines j) \<and>
         (0 < i \<longrightarrow> resolveTarget lines candidate = int i - 1 \<and> \<not> insideFence lines (i - 1)))) \<and>
   resolveTarget [''a'', ''```'', ''code'', ''```'', ''b''] 2 = 0"
proof (intro conjI impI)
  assume a: "headerAvoidance lines candidate = int k \<and> k < length lines \<and>
    (isFenceDelimiter (lines ! k) \<or> insideFence lines k)"
  then have h: "headerAvoidance lines candidate = int k" and k: "k < length lines"
    and f: "isFenceDelimiter (lines ! k) \<or> insideFence lines k" by simp_all
  from k f have "0 < fenceCount lines k" by (rule fence_candidate_count)
  with k obtain i where w: "walkBack lines k = Some i" using walkBack_exists by blast
  from walkBack_Some [OF w] have i: "i \<le> k" and o: "opensFence lines i"
    and n: "\<forall>j. i < j \<and> j \<le> k \<longrightarrow> \<not> opensFence lines j" by simp_all
  have "0 < i \<longrightarrow> resolveTarget lines candidate = int i - 1 \<and> \<not> insideFence lines (i - 1)"
  proof
    assume p: "0 < i"
    from i k have il: "i < length lines" by simp
    from o p il have "\<not> insideFence lines (i - 1)" by (rule before_opening_outside)
    moreover have "resolveTarget lines candidate = int i - 1"
      using h k f w p il by (simp add: resolveTarget_def Let_def)
    ultimately show "resolveTarget lines candidate = int i - 1 \<and> \<not> insideFence lines (i - 1)"
      by simp
  qed
  with w i o n
  show "\<exists>i\<le>k. walkBack lines k = Some i \<and> opensFence lines i \<and>
         (\<forall>j. i < j \<and> j \<le> k \<longrightarrow> \<not> opensFence lines j) \<and>
         (0 < i \<longrightarrow> resolveTarget lines candidate = int i - 1 \<and> \<not> insideFence lines (i - 1))"
    by blast
next
  show "resolveTarget [''a'', ''```'', ''code'', ''```'', ''b''] 2 = 0"
    by (simp add: resolveTarget_def headerAvoidance_def frontmatterEndIndex_def
        isFenceDelimiter_def insideFence_def fenceCount_def opensFence_def numeral_2_eq_2)
qed

theorem C4_fence_avoidance_witness:
  "headerAvoidance [''a'', ''```'', ''c'', ''```'', ''b''] 3 = int 3 \<and>
   isFenceDelimiter ([''a'', ''```'', ''c'', ''```'', ''b''] ! 3) \<and>
   walkBack [''a'', ''```'', ''c'', ''```'', ''b''] 3 = Some 1 \<and>
   resolveTarget [''a'', ''```'', ''c'', ''```'', ''b''] 3 = 0 \<and>
   \<not> insideFence [''a'', ''```'', ''c'', ''```'', ''b''] 0"
proof -
  let ?d = "[''a'', ''```'', ''c'', ''```'', ''b'']"
  have h1: "headerAvoidance ?d 3 = int 3"
    by (simp add: headerAvoidance_def frontmatterEndIndex_def)
  have h2: "isFenceDelimiter (?d ! 3)"
    by (simp add: isFenceDelimiter_def numeral_3_eq_3)
  have h: "headerAvoidance ?d 3 = int 3 \<and> 3 < length ?d \<and>
    (isFenceDelimiter (?d ! 3) \<or> insideFence ?d 3)"
    using h1 h2 by simp
  have w: "walkBack ?d 3 = Some 1"
    by (simp add: isFenceDelimiter_def insideFence_def fenceCount_def opensFence_def
        numeral_3_eq_3)
  from C4_fence_avoidance [of ?d 3 3, THEN conjunct1, THEN mp, OF h]
  obtain i where "walkBack ?d 3 = Some i"
    and r: "0 < i \<longrightarrow> resolveTarget ?d 3 = int i - 1 \<and> \<not> insideFence ?d (i - 1)"
    by (elim exE conjE)
  with w have "i = 1" by simp
  with r have t: "resolveTarget ?d 3 = 0 \<and> \<not> insideFence ?d 0" by simp
  show ?thesis
    by (rule conjI [OF h1 conjI [OF h2 conjI [OF w t]]])
qed

text \<open>
  C5. Deferred-removal re-validation: the function applied to the file when the
  deferred removal fires in rendered mode depends on the content at that moment only.
  When that content holds no marker the function returns it unchanged; when line \<open>k\<close>
  is the first line of that content holding the marker, it is line \<open>k\<close> that is
  rewritten. Both hold for the removal by \<^verbatim>\<open>indexOf\<close>/\<^verbatim>\<open>slice\<close> and for the
  removal by the cleanup pattern of the newest revision. Every step of the function is
  total on strings (the one array read that can miss is tested for in the source), so
  no input makes it raise.
\<close>

theorem C5_deferred_removal_revalidates:
  "(\<not> str_includes content BOOKMARK_MARKER \<longrightarrow>
      toggleBookmark_remove content = content \<and> toggleBookmark_remove_regex content = content) \<and>
   (firstLineWithMarker (splitLines content) 0 = Some k \<longrightarrow>
      toggleBookmark_remove content =
        joinWith (eol content) ((splitLines content)[k := removeFromLine (splitLines content ! k)]) \<and>
      toggleBookmark_remove_regex content =
        joinWith (eol content) ((splitLines content)[k := replaceBefore (splitLines content ! k)]))"
  using remove_absent [of content] remove_present [of content k] by blast

theorem C5_deferred_removal_revalidates_witness:
  "\<not> str_includes ''one\<newline>two'' BOOKMARK_MARKER \<and>
   toggleBookmark_remove ''one\<newline>two'' = ''one\<newline>two'' \<and>
   toggleBookmark_remove_regex ''one\<newline>two'' = ''one\<newline>two'' \<and>
   firstLineWithMarker (splitLines ''new\<newline>one <!-- bookmark-marker -->\<newline>two'') 0 = Some 1 \<and>
   toggleBookmark_remove ''new\<newline>one <!-- bookmark-marker -->\<newline>two'' = ''new\<newline>one\<newline>two'' \<and>
   toggleBookmark_remove_regex ''new\<newline>one <!-- bookmark-marker -->\<newline>two'' = ''new\<newline>one\<newline>two''"
proof -
  have a: "\<not> str_includes ''one\<newline>two'' BOOKMARK_MARKER"
    by (simp add: BOOKMARK_MARKER_def)
  have s: "splitLines ''new\<newline>one <!-- bookmark-marker -->\<newline>two'' =
             [''new'', ''one <!-- bookmark-marker -->'', ''two'']"
    by simp
  have b: "firstLineWithMarker (splitLines ''new\<newline>one <!-- bookmark-marker -->\<newline>two'') 0 = Some 1"
    unfolding s by (simp add: BOOKMARK_MARKER_def)
  have e: "eol ''new\<newline>one <!-- bookmark-marker -->\<newline>two'' = LF"
    by (simp add: eol_def CRLF_def)
  have r1: "removeFromLine ''one <!-- bookmark-marker -->'' = ''one''"
    by (simp add: removeFromLine_def indexOf_def BOOKMARK_MARKER_def slice_def sliceFrom_def)
  have r2: "replaceBefore ''one <!-- bookmark-marker -->'' = ''one''"
    by (simp add: BOOKMARK_MARKER_def isSpace_def)
  from a C5_deferred_removal_revalidates [of "''one\<newline>two''"]
  have c: "toggleBookmark_remove ''one\<newline>two'' = ''one\<newline>two'' \<and>
           toggleBookmark_remove_regex ''one\<newline>two'' = ''one\<newline>two''"
    by simp
  from C5_deferred_removal_revalidates [of "''new\<newline>one <!-- bookmark-marker -->\<newline>two''" 1,
      THEN conjunct2, THEN mp, OF b]
  have d: "toggleBookmark_remove ''new\<newline>one <!-- bookmark-marker -->\<newline>two'' = ''new\<newline>one\<newline>two'' \<and>
           toggleBookmark_remove_regex ''new\<newline>one <!-- bookmark-marker -->\<newline>two'' = ''new\<newline>one\<newline>two''"
    unfolding s e by (simp add: r1 r2 LF_def BOOKMARK_MARKER_def isSpace_def)
  from a b c d show ?thesis by simp
qed




text \<open>
  C7. Per-line insertion idempotence: inserting the marker at a line appends one space
  followed by the marker token to the end of the line, unless the marker is already
  present on the line, in which case the line is left as it is; inserting twice gives
  the same line as inserting once.
\<close>

theorem C7_insert_idempotent:
  "(\<not> str_includes l BOOKMARK_MARKER \<longrightarrow> insertAtEndOfLine l = l @ '' '' @ BOOKMARK_MARKER) \<and>
   (str_includes l BOOKMARK_MARKER \<longrightarrow> insertAtEndOfLine l = l) \<and>
   insertAtEndOfLine (insertAtEndOfLine l) = insertAtEndOfLine l"
  by (simp add: insertAtEndOfLine_def includes_append_Cons_marker)

theorem C7_insert_idempotent_witness:
  "\<not> str_includes ''body'' BOOKMARK_MARKER \<and>
   insertAtEndOfLine ''body'' = ''body <!-- bookmark-marker -->'' \<and>
   str_includes ''body <!-- bookmark-marker -->'' BOOKMARK_MARKER \<and>
   insertAtEndOfLine ''body <!-- bookmark-marker -->'' = ''body <!-- bookmark-marker -->''"
proof -
  have a: "\<not> str_includes ''body'' BOOKMARK_MARKER"
    by (simp add: BOOKMARK_MARKER_def)
  have b: "str_includes ''body <!-- bookmark-marker -->'' BOOKMARK_MARKER"
    by (simp add: BOOKMARK_MARKER_def)
  from a C7_insert_idempotent [of "''body''"]
  have c: "insertAtEndOfLine ''body'' = ''body <!-- bookmark-marker -->''"
    by (simp add: BOOKMARK_MARKER_def)
  from b C7_insert_idempotent [of "''body <!-- bookmark-marker -->''"]
  have d: "insertAtEndOfLine ''body <!-- bookmark-marker -->'' = ''body <!-- bookmark-marker -->''"
    by simp
  from a b c d show ?thesis by simp
qed

text \<open>
  C8. Line-ending preservation: the rendered-mode insertion and the rendered-mode
  removal (by \<^verbatim>\<open>indexOf\<close>/\<^verbatim>\<open>slice\<close>, and by the cleanup pattern in the newest
  revision) either return the content as it is or return the lines of the content, one
  of them rewritten, joined with CRLF when the content contains a CRLF and with LF
  otherwise. Hence a document of lines joined by CRLF is rewritten to the same lines,
  one of them changed, joined by CRLF, and likewise for LF.
\<close>

theorem C8_line_endings_preserved:
  "toggleBookmark_insert v content =
     joinWith (if str_includes content CRLF then CRLF else LF)
       ((splitLines content)[nat (targetLine v (splitLines content)) :=
          insertAtEndOfLine (splitLines content ! nat (targetLine v (splitLines content)))]) \<and>
   (toggleBookmark_remove content = content \<or>
    (\<exists>k<length (splitLines content). toggleBookmark_remove content =
       joinWith (if str_includes content CRLF then CRLF else LF)
         ((splitLines content)[k := removeFromLine (splitLines content ! k)]))) \<and>
   (toggleBookmark_remove_regex content = content \<or>
    (\<exists>k<length (splitLines content). toggleBookmark_remove_regex content =
       joinWith (if str_includes content CRLF then CRLF else LF)
         ((splitLines content)[k := replaceBefore (splitLines content ! k)]))) \<and>
   (ls \<noteq> [] \<and> (\<forall>l\<in>set ls. CHR 0x0A \<notin> set l \<and> CHR 0x0D \<notin> set l) \<longrightarrow>
      toggleBookmark_insert v (joinWith CRLF ls) =
        joinWith CRLF (ls[nat (targetLine v ls) := insertAtEndOfLine (ls ! nat (targetLine v ls))]) \<and>
      toggleBookmark_insert v (joinWith LF ls) =
        joinWith LF (ls[nat (targetLine v ls) := insertAtEndOfLine (ls ! nat (targetLine v ls))]) \<and>
      (firstLineWithMarker ls 0 = Some n \<longrightarrow>
         toggleBookmark_remove (joinWith CRLF ls) = joinWith CRLF (ls[n := removeFromLine (ls ! n)]) \<and>
         toggleBookmark_remove_regex (joinWith CRLF ls) = joinWith CRLF (ls[n := replaceBefore (ls ! n)]) \<and>
         toggleBookmark_remove (joinWith LF ls) = joinWith LF (ls[n := removeFromLine (ls ! n)]) \<and>
         toggleBookmark_remove_regex (joinWith LF ls) = joinWith LF (ls[n := replaceBefore (ls ! n)])) \<and>
      (firstLineWithMarker ls 0 = None \<longrightarrow>
         toggleBookmark_remove (joinWith CRLF ls) = joinWith CRLF ls \<and>
         toggleBookmark_remove_regex (joinWith CRLF ls) = joinWith CRLF ls \<and>
         toggleBookmark_remove (joinWith LF ls) = joinWith LF ls \<and>
         toggleBookmark_remove_regex (joinWith LF ls) = joinWith LF ls))"
proof (intro conjI impI)
  show "toggleBookmark_insert v content =
     joinWith (if str_includes content CRLF then CRLF else LF)
       ((splitLines content)[nat (targetLine v (splitLines content)) :=
          insertAtEndOfLine (splitLines content ! nat (targetLine v (splitLines content)))])"
    using insert_general [of v content] by (simp only: eol_def)
  show "toggleBookmark_remove content = content \<or>
    (\<exists>k<length (splitLines content). toggleBookmark_remove content =
       joinWith (if str_includes content CRLF then CRLF else LF)
         ((splitLines content)[k := removeFromLine (splitLines content ! k)]))"
    using remove_general [of content] by (simp only: eol_def)
  show "toggleBookmark_remove_regex content = content \<or>
    (\<exists>k<length (splitLines content). toggleBookmark_remove_regex content =
       joinWith (if str_includes content CRLF then CRLF else LF)
         ((splitLines content)[k := replaceBefore (splitLines content ! k)]))"
    using remove_regex_general [of content] by (simp only: eol_def)
next
  assume a: "ls \<noteq> [] \<and> (\<forall>l\<in>set ls. CHR 0x0A \<notin> set l \<and> CHR 0x0D \<notin> set l)"
  then have n: "ls \<noteq> []" and f: "\<forall>l\<in>set ls. CHR 0x0A \<notin> set l \<and> CHR 0x0D \<notin> set l"
    by simp_all
  show "toggleBookmark_insert v (joinWith CRLF ls) =
        joinWith CRLF (ls[nat (targetLine v ls) := insertAtEndOfLine (ls ! nat (targetLine v ls))])"
    using n f by (rule insert_CRLF_doc)
  show "toggleBookmark_insert v (joinWith LF ls) =
        joinWith LF (ls[nat (targetLine v ls) := insertAtEndOfLine (ls ! nat (targetLine v ls))])"
    using n f by (rule insert_LF_doc)
  {
    assume k: "firstLineWithMarker ls 0 = Some n"
    show "toggleBookmark_remove (joinWith CRLF ls) = joinWith CRLF (ls[n := removeFromLine (ls ! n)])"
      using n f k by (rule remove_CRLF_doc(1))
    show "toggleBookmark_remove_regex (joinWith CRLF ls) = joinWith CRLF (ls[n := replaceBefore (ls ! n)])"
      using n f k by (rule remove_CRLF_doc(2))
    show "toggleBookmark_remove (joinWith LF ls) = joinWith LF (ls[n := removeFromLine (ls ! n)])"
      using n f k by (rule remove_LF_doc(1))
    show "toggleBookmark_remove_regex (joinWith LF ls) = joinWith LF (ls[n := replaceBefore (ls ! n)])"
      using n f k by (rule remove_LF_doc(2))
  }
  {
    assume k: "firstLineWithMarker ls 0 = None"
    show "toggleBookmark_remove (joinWith CRLF ls) = joinWith CRLF ls"
      using n f k by (rule remove_unmarked_doc(1))
    show "toggleBookmark_remove_regex (joinWith CRLF ls) = joinWith CRLF ls"
      using n f k by (rule remove_unmarked_doc(2))
    show "toggleBookmark_remove (joinWith LF ls) = joinWith LF ls"
      using n f k by (rule remove_unmarked_doc(3))
    show "toggleBookmark_remove_regex (joinWith LF ls) = joinWith LF ls"
      using n f k by (rule remove_unmarked_doc(4))
  }
qed

theorem C8_line_endings_preserved_witness:
  "toggleBookmark_insert 1 (''a'' @ CRLF @ ''b'') = ''a'' @ CRLF @ ''b <!-- bookmark-marker -->'' \<and>
   toggleBookmark_remove (''a'' @ CRLF @ ''b <!-- bookmark-marker -->'') = ''a'' @ CRLF @ ''b'' \<and>
   toggleBookmark_remove_regex (''a'' @ CRLF @ ''b <!-- bookmark-marker -->'') = ''a'' @ CRLF @ ''b'' \<and>
   toggleBookmark_insert 1 (''a'' @ LF @ ''b'') = ''a'' @ LF @ ''b <!-- bookmark-marker -->'' \<and>
   toggleBookmark_remove (''a'' @ CRLF @ ''b'') = ''a'' @ CRLF @ ''b''"
proof -
  have h1: "[''a'', ''b''] \<noteq> [] \<and> (\<forall>l\<in>set [''a'', ''b'']. CHR 0x0A \<notin> set l \<and> CHR 0x0D \<notin> set l)"
    by simp
  have h2: "[''a'', ''b <!-- bookmark-marker -->''] \<noteq> [] \<and>
    (\<forall>l\<in>set [''a'', ''b <!-- bookmark-marker -->'']. CHR 0x0A \<notin> set l \<and> CHR 0x0D \<notin> set l)"
    by simp
  have k: "firstLineWithMarker [''a'', ''b <!-- bookmark-marker -->''] 0 = Some 1"
    by (simp add: BOOKMARK_MARKER_def)
  have k0: "firstLineWithMarker [''a'', ''b''] 0 = None"
    by (simp add: BOOKMARK_MARKER_def)
  have t: "nat (targetLine 1 [''a'', ''b'']) = 1"
    by (simp add: targetLine_def frontmatterEndIndex_def)
  have i: "insertAtEndOfLine ''b'' = ''b <!-- bookmark-marker -->''"
    by (simp add: insertAtEndOfLine_def BOOKMARK_MARKER_def)
  have r1: "removeFromLine ''b <!-- bookmark-marker -->'' = ''b''"
    by (simp add: removeFromLine_def indexOf_def BOOKMARK_MARKER_def slice_def sliceFrom_def)
  have r2: "replaceBefore ''b <!-- bookmark-marker -->'' = ''b''"
    by (simp add: BOOKMARK_MARKER_def isSpace_def)
  note A = C8_line_endings_preserved [of 1 "[]" "[''a'', ''b'']" 0,
      THEN conjunct2, THEN conjunct2, THEN conjunct2, THEN mp, OF h1]
  note B = C8_line_endings_preserved [of 1 "[]" "[''a'', ''b <!-- bookmark-marker -->'']" 1,
      THEN conjunct2, THEN conjunct2, THEN conjunct2, THEN mp, OF h2]
  have a1: "toggleBookmark_insert 1 (''a'' @ CRLF @ ''b'') = ''a'' @ CRLF @ ''b <!-- bookmark-marker -->''"
    using A [THEN conjunct1] unfolding t by (simp add: i)
  have a2: "toggleBookmark_insert 1 (''a'' @ LF @ ''b'') = ''a'' @ LF @ ''b <!-- bookmark-marker -->''"
    using A [THEN conjunct2, THEN conjunct1] unfolding t by (simp add: i)
  have a3: "toggleBookmark_remove (''a'' @ CRLF @ ''b'') = ''a'' @ CRLF @ ''b''"
    using A [THEN conjunct2, THEN conjunct2, THEN conjunct2, THEN mp, OF k0, THEN conjunct1]
    by simp
  have b1: "toggleBookmark_remove (''a'' @ CRLF @ ''b <!-- bookmark-marker -->'') = ''a'' @ CRLF @ ''b''"
    using B [THEN conjunct2, THEN conjunct2, THEN conjunct1, THEN mp, OF k, THEN conjunct1]
    by (simp add: r1)
  have b2: "toggleBookmark_remove_regex (''a'' @ CRLF @ ''b <!-- bookmark-marker -->'') = ''a'' @ CRLF @ ''b''"
    using B [THEN conjunct2, THEN conjunct2, THEN conjunct1, THEN mp, OF k, THEN conjunct2, THEN conjunct1]
    by (simp add: r2 BOOKMARK_MARKER_def isSpace_def)
  from a1 a2 a3 b1 b2 show ?thesis by (intro conjI)
qed

text \<open>
  C9. Estimation-failure fallback: when reading the scroll position raises, or the
  scroll height is needed (the scroll value is not at most 100) and reading it raises,
  the estimator returns line 0; and no call of the estimator ends with an exception.
\<close>

theorem C9_failure_fallback:
  "(previewMode_getScroll view = None \<longrightarrow> getVisibleLineInPreview view = Normal (Finite 0)) \<and>
   (previewMode_getScroll view = Some scroll \<and> \<not> number_le scroll (Finite 100) \<and>
    containerEl_scrollHeight view = None \<longrightarrow>
      getVisibleLineInPreview view = Normal (Finite 0)) \<and>
   getVisibleLineInPreview view \<noteq> Raised"
  by (simp add: getVisibleLineInPreview_def tryBlock_def scrollPercentage_def split: option.splits)

theorem C9_failure_fallback_witness:
  "getVisibleLineInPreview \<lparr>previewMode_getScroll = None,
      containerEl_scrollHeight = Some (Finite 1000), editor_lineCount = Some 100\<rparr>
     = Normal (Finite 0) \<and>
   getVisibleLineInPreview \<lparr>previewMode_getScroll = Some (Finite 500),
      containerEl_scrollHeight = None, editor_lineCount = Some 100\<rparr> = Normal (Finite 0)"
  using
    C9_failure_fallback [of "\<lparr>previewMode_getScroll = None,
      containerEl_scrollHeight = Some (Finite 1000), editor_lineCount = Some 100\<rparr>"]
    C9_failure_fallback [of "\<lparr>previewMode_getScroll = Some (Finite 500),
      containerEl_scrollHeight = None, editor_lineCount = Some 100\<rparr>" "Finite 500"]
  by (simp add: number_le_def)

text \<open>
  C10. Decoration coverage is first-occurrence-only: the ranges the decoration builder
  produces are, for each line that contains the marker and in the order of the lines,
  one line decoration at the start of the line followed by one hidden-text range of the
  length of the marker; lines without the marker give nothing. The hidden range starts
  at the first occurrence of the marker on its line and covers exactly a marker in the
  document, so a second marker on the same line is not hidden.
\<close>

theorem C10_decorations_first_occurrence:
  "buildDecorations content =
     concat (map (\<lambda>i.
         [Range (lineFrom (splitLF content) i) (lineFrom (splitLF content) i)
            (LineDecoration ''cm-bookmark-line''),
          Range (lineFrom (splitLF content) i + nat (indexOf (splitLF content ! i) BOOKMARK_MARKER))
            (lineFrom (splitLF content) i + nat (indexOf (splitLF content ! i) BOOKMARK_MARKER)
               + length BOOKMARK_MARKER)
            (MarkDecoration ''cm-bookmark-marker-hidden'')])
       (filter (\<lambda>i. str_includes (splitLF content ! i) BOOKMARK_MARKER)
          [0..<length (splitLF content)])) \<and>
   (i < length (splitLF content) \<and> str_includes (splitLF content ! i) BOOKMARK_MARKER \<longrightarrow>
      prefix BOOKMARK_MARKER
        (drop (nat (indexOf (splitLF content ! i) BOOKMARK_MARKER)) (splitLF content ! i)) \<and>
      (\<forall>q<nat (indexOf (splitLF content ! i) BOOKMARK_MARKER).
          \<not> prefix BOOKMARK_MARKER (drop q (splitLF content ! i))) \<and>
      take (length BOOKMARK_MARKER)
        (drop (lineFrom (splitLF content) i + nat (indexOf (splitLF content ! i) BOOKMARK_MARKER))
           content) = BOOKMARK_MARKER) \<and>
   buildDecorations ''a\<newline>x <!-- bookmark-marker --> <!-- bookmark-marker -->'' =
     [Range 2 2 (LineDecoration ''cm-bookmark-line''),
      Range 4 28 (MarkDecoration ''cm-bookmark-marker-hidden'')]"
proof (intro conjI impI)
  show "buildDecorations content =
     concat (map (\<lambda>i.
         [Range (lineFrom (splitLF content) i) (lineFrom (splitLF content) i)
            (LineDecoration ''cm-bookmark-line''),
          Range (lineFrom (splitLF content) i + nat (indexOf (splitLF content ! i) BOOKMARK_MARKER))
            (lineFrom (splitLF content) i + nat (indexOf (splitLF content ! i) BOOKMARK_MARKER)
               + length BOOKMARK_MARKER)
            (MarkDecoration ''cm-bookmark-marker-hidden'')])
       (filter (\<lambda>i. str_includes (splitLF content ! i) BOOKMARK_MARKER)
          [0..<length (splitLF content)]))"
    by (rule buildDecorations_marked_lines)
  show "buildDecorations ''a\<newline>x <!-- bookmark-marker --> <!-- bookmark-marker -->'' =
     [Range 2 2 (LineDecoration ''cm-bookmark-line''),
      Range 4 28 (MarkDecoration ''cm-bookmark-marker-hidden'')]"
    by (simp add: buildDecorations_def decorateLine_def doc_line_def indexOf_def BOOKMARK_MARKER_def)
next
  assume a: "i < length (splitLF content) \<and> str_includes (splitLF content ! i) BOOKMARK_MARKER"
  then have m: "str_includes (splitLF content ! i) BOOKMARK_MARKER" and i: "i < length (splitLF content)"
    by simp_all
  show "prefix BOOKMARK_MARKER
        (drop (nat (indexOf (splitLF content ! i) BOOKMARK_MARKER)) (splitLF content ! i))"
    using m by (rule indexOf_first(2))
  show "\<forall>q<nat (indexOf (splitLF content ! i) BOOKMARK_MARKER).
          \<not> prefix BOOKMARK_MARKER (drop q (splitLF content ! i))"
    using m by (rule indexOf_first(3))
  show "take (length BOOKMARK_MARKER)
        (drop (lineFrom (splitLF content) i + nat (indexOf (splitLF content ! i) BOOKMARK_MARKER))
           content) = BOOKMARK_MARKER"
    using i m by (rule mark_covers_marker)
qed

theorem C10_decorations_first_occurrence_witness:
  "1 < length (splitLF ''a\<newline>x <!-- bookmark-marker --> <!-- bookmark-marker -->'') \<and>
   str_includes (splitLF ''a\<newline>x <!-- bookmark-marker --> <!-- bookmark-marker -->'' ! 1)
     BOOKMARK_MARKER \<and>
   take 24 (drop 4 ''a\<newline>x <!-- bookmark-marker --> <!-- bookmark-marker -->'') = BOOKMARK_MARKER"
proof -
  have s: "splitLF ''a\<newline>x <!-- bookmark-marker --> <!-- bookmark-marker -->'' =
             [''a'', ''x <!-- bookmark-marker --> <!-- bookmark-marker -->'']"
    by simp
  have h: "1 < length (splitLF ''a\<newline>x <!-- bookmark-marker --> <!-- bookmark-marker -->'') \<and>
     str_includes (splitLF ''a\<newline>x <!-- bookmark-marker --> <!-- bookmark-marker -->'' ! 1)
       BOOKMARK_MARKER"
    unfolding s by (simp add: BOOKMARK_MARKER_def)
  have p: "nat (indexOf ''x <!-- bookmark-marker --> <!-- bookmark-marker -->'' BOOKMARK_MARKER) = 2"
    by (simp add: indexOf_def BOOKMARK_MARKER_def)
  have l: "length BOOKMARK_MARKER = 24"
    by (simp add: BOOKMARK_MARKER_def)
  from C10_decorations_first_occurrence
         [of "''a\<newline>x <!-- bookmark-marker --> <!-- bookmark-marker -->''" 1,
          THEN conjunct2, THEN conjunct1, THEN mp, OF h, THEN conjunct2, THEN conjunct2]
  have t: "take 24 (drop 4 ''a\<newline>x <!-- bookmark-marker --> <!-- bookmark-marker -->'') = BOOKMARK_MARKER"
    unfolding s l by (simp add: p)
  show ?thesis
    by (rule conjI [OF conjunct1 [OF h] conjI [OF conjunct2 [OF h] t]])
qed

end
